theory Spec2Isabelle
  imports Main "HOL-Library.Log_Nat"
begin

section \<open>JavaScript numbers\<close>

text \<open>
  A JavaScript \<^verbatim>\<open>number\<close> is an IEEE 754 binary64 value. A finite value is carried as the
  rational it denotes, next to \<^verbatim>\<open>NaN\<close> and the two infinities. The sign of zero is not
  represented: \<^verbatim>\<open>-0\<close> and \<^verbatim>\<open>+0\<close> are both \<open>Fin 0\<close>; the functions modelled here compare
  zeros with \<^verbatim>\<open><\<close>, \<^verbatim>\<open><=\<close>, \<^verbatim>\<open>>\<close> only and divide by the constant 100 only, where the two
  zeros behave alike.
\<close>

datatype number = NaN | PosInf | NegInf | Fin rat

text \<open>\<open>ilog2 x\<close> is \<open>\<lfloor>log\<^sub>2 x\<rfloor>\<close> for \<open>x > 0\<close>, computed from the bit lengths of numerator and
  denominator.\<close>

definition ilog2 :: "rat \<Rightarrow> int" where
  "ilog2 x = (case quotient_of x of (p, q) \<Rightarrow>
     let l = bitlen p - bitlen q in if 2 powi l \<le> x then l else l - 1)"

text \<open>Rounding to the nearest integer, ties to the even one.\<close>

definition round_half_even :: "rat \<Rightarrow> int" where
  "round_half_even z =
     (let n = \<lfloor>z\<rfloor>; r = z - of_int n
      in if r < 1 / 2 then n else if 1 / 2 < r then n + 1 else if even n then n else n + 1)"

text \<open>
  The binary64 numbers around \<open>a > 0\<close> are the multiples of \<open>spacing a\<close>, a power of two
  that leaves 53 significant bits and is at least \<open>2\<^sup>-\<^sup>1\<^sup>0\<^sup>7\<^sup>4\<close> (the subnormal spacing).
  \<open>round_double\<close> is the rounding every arithmetic operation and every decimal literal
  goes through: to the nearest multiple, ties to the even one, overflowing to an infinity
  from \<open>2\<^sup>1\<^sup>0\<^sup>2\<^sup>4\<close> on.
\<close>

definition spacing :: "rat \<Rightarrow> rat" where
  "spacing a = 2 powi (max (ilog2 a - 52) (- 1074))"

definition round_magnitude :: "rat \<Rightarrow> rat" where
  "round_magnitude a = of_int (round_half_even (a / spacing a)) * spacing a"

definition round_double :: "rat \<Rightarrow> number" where
  "round_double x =
     (if x = 0 then Fin 0
      else let y = round_magnitude \<bar>x\<bar>
           in if 2 ^ 1024 \<le> y then (if 0 < x then PosInf else NegInf)
              else Fin (if 0 < x then y else - y))"

fun js_neg :: "number \<Rightarrow> number" where
  "js_neg NaN = NaN"
| "js_neg PosInf = NegInf"
| "js_neg NegInf = PosInf"
| "js_neg (Fin x) = Fin (- x)"

fun js_add :: "number \<Rightarrow> number \<Rightarrow> number" where
  "js_add NaN b = NaN"
| "js_add a NaN = NaN"
| "js_add (Fin x) (Fin y) = round_double (x + y)"
| "js_add PosInf NegInf = NaN"
| "js_add NegInf PosInf = NaN"
| "js_add PosInf b = PosInf"
| "js_add NegInf b = NegInf"
| "js_add a PosInf = PosInf"
| "js_add a NegInf = NegInf"

fun js_sub :: "number \<Rightarrow> number \<Rightarrow> number" where
  "js_sub NaN b = NaN"
| "js_sub a NaN = NaN"
| "js_sub (Fin x) (Fin y) = round_double (x - y)"
| "js_sub PosInf PosInf = NaN"
| "js_sub NegInf NegInf = NaN"
| "js_sub PosInf b = PosInf"
| "js_sub NegInf b = NegInf"
| "js_sub a PosInf = NegInf"
| "js_sub a NegInf = PosInf"

fun js_mul :: "number \<Rightarrow> number \<Rightarrow> number" where
  "js_mul NaN b = NaN"
| "js_mul a NaN = NaN"
| "js_mul (Fin x) (Fin y) = round_double (x * y)"
| "js_mul (Fin x) b = (if x = 0 then NaN else if 0 < x then b else js_neg b)"
| "js_mul a (Fin y) = (if y = 0 then NaN else if 0 < y then a else js_neg a)"
| "js_mul a b = (if a = b then PosInf else NegInf)"

text \<open>A zero divisor is taken as \<^verbatim>\<open>+0\<close>.\<close>

fun js_div :: "number \<Rightarrow> number \<Rightarrow> number" where
  "js_div NaN b = NaN"
| "js_div a NaN = NaN"
| "js_div (Fin x) (Fin y) =
     (if y = 0 then (if x = 0 then NaN else if 0 < x then PosInf else NegInf)
      else round_double (x / y))"
| "js_div (Fin x) b = Fin 0"
| "js_div a (Fin y) = (if 0 \<le> y then a else js_neg a)"
| "js_div a b = NaN"

text \<open>\<^verbatim>\<open>Math.ceil\<close>: exact, the ceiling of a binary64 value is a binary64 value.\<close>

fun js_ceil :: "number \<Rightarrow> number" where
  "js_ceil (Fin x) = Fin (of_int \<lceil>x\<rceil>)"
| "js_ceil a = a"

definition js_isNaN :: "number \<Rightarrow> bool" where
  "js_isNaN a = (a = NaN)"

text \<open>\<^verbatim>\<open>Number.isFinite\<close>\<close>

definition js_isFinite :: "number \<Rightarrow> bool" where
  "js_isFinite a = (case a of Fin x \<Rightarrow> True | _ \<Rightarrow> False)"

text \<open>Comparisons: every comparison with \<^verbatim>\<open>NaN\<close> is false.\<close>

fun js_lt :: "number \<Rightarrow> number \<Rightarrow> bool" where
  "js_lt NaN b = False"
| "js_lt a NaN = False"
| "js_lt (Fin x) (Fin y) = (x < y)"
| "js_lt NegInf NegInf = False"
| "js_lt NegInf b = True"
| "js_lt a NegInf = False"
| "js_lt PosInf b = False"
| "js_lt a PosInf = True"

fun js_le :: "number \<Rightarrow> number \<Rightarrow> bool" where
  "js_le NaN b = False"
| "js_le a NaN = False"
| "js_le (Fin x) (Fin y) = (x \<le> y)"
| "js_le NegInf b = True"
| "js_le a PosInf = True"
| "js_le a NegInf = False"
| "js_le PosInf b = False"

definition js_gt :: "number \<Rightarrow> number \<Rightarrow> bool" where
  "js_gt a b = js_lt b a"

definition js_ge :: "number \<Rightarrow> number \<Rightarrow> bool" where
  "js_ge a b = js_le b a"

section \<open>constants.ts\<close>

text \<open>\<^verbatim>\<open>CURRENCIES\<close>: the symbol of each currency code (name and flag are not read by the
  functions below). The pound sign and the tugrik sign are given by their UTF-8 bytes.\<close>

definition CURRENCIES :: "(string \<times> string) list" where
  "CURRENCIES =
     [(''USD'', ''$''),
      (''GBP'', [CHR 0xC2, CHR 0xA3]),
      (''ZAR'', ''R''),
      (''USDT'', [CHR 0xE2, CHR 0x82, CHR 0xAE])]"

datatype tier = basic | premium | enterprise

record per_transaction =
  min' :: number
  max' :: number

record limits =
  daily :: number
  monthly :: number
  perTransaction :: per_transaction

fun TRANSACTION_LIMITS :: "tier \<Rightarrow> limits" where
  "TRANSACTION_LIMITS basic =
     \<lparr>daily = Fin 1000, monthly = Fin 10000,
      perTransaction = \<lparr>min' = Fin 1, max' = Fin 500\<rparr>\<rparr>"
| "TRANSACTION_LIMITS premium =
     \<lparr>daily = Fin 5000, monthly = Fin 50000,
      perTransaction = \<lparr>min' = Fin 1, max' = Fin 2000\<rparr>\<rparr>"
| "TRANSACTION_LIMITS enterprise =
     \<lparr>daily = Fin 20000, monthly = Fin 200000,
      perTransaction = \<lparr>min' = Fin 1, max' = Fin 10000\<rparr>\<rparr>"

section \<open>types/index.ts\<close>

text \<open>Of a \<^verbatim>\<open>User\<close> the functions below read the tier only.\<close>

record user =
  tier :: tier

datatype destination = UK | South_Africa

section \<open>utils/financial.ts\<close>

definition calculateFee :: "number \<Rightarrow> destination \<Rightarrow> number" where
  "calculateFee amount destinationCountry =
     (let feePercentage = (if destinationCountry = UK then Fin 10 else Fin 20)
      in js_div (js_ceil (js_mul (js_div (js_mul amount feePercentage) (Fin 100)) (Fin 100)))
           (Fin 100))"

definition calculateFinalAmount :: "number \<Rightarrow> number \<Rightarrow> number \<Rightarrow> number" where
  "calculateFinalAmount sourceAmount exchangeRate fee =
     (let amountAfterFee = js_sub sourceAmount fee
      in js_div (js_ceil (js_mul (js_mul amountAfterFee exchangeRate) (Fin 100))) (Fin 100))"

definition is_upper :: "char \<Rightarrow> bool" where
  "is_upper c = (c \<in> set ''ABCDEFGHIJKLMNOPQRSTUVWXYZ'')"

text \<open>\<^verbatim>\<open>s.replace(/[A-Z]{3}/, symbol)\<close>: the first run of three capitals is replaced.\<close>

fun replace_code :: "string \<Rightarrow> string \<Rightarrow> string" where
  "replace_code symbol (a # b # c # rest) =
     (if is_upper a \<and> is_upper b \<and> is_upper c then symbol @ rest
      else a # replace_code symbol (b # c # rest))"
| "replace_code symbol s = s"

text \<open>
  \<^verbatim>\<open>Intl.NumberFormat('en-US', {style: 'currency', currency, ...}).format\<close> belongs to the
  runtime; it is the parameter \<open>numberFormat\<close>, from a currency code and an amount to text.
\<close>

definition formatCurrency :: "(string \<Rightarrow> number \<Rightarrow> string) \<Rightarrow> number \<Rightarrow> string \<Rightarrow> string" where
  "formatCurrency numberFormat amount currency =
     (let symbol = (case map_of CURRENCIES currency of Some s \<Rightarrow> s | None \<Rightarrow> currency)
      in replace_code symbol
           (numberFormat
              (if currency = ''ZAR'' then ''ZAR'' else if currency = ''GBP'' then ''GBP'' else ''USD'')
              amount))"

record validation =
  isValid :: bool
  error :: "string option"

text \<open>The two amounts already spent are given; a caller that leaves them out passes 0.\<close>

definition validateTransactionAmount ::
  "(string \<Rightarrow> number \<Rightarrow> string) \<Rightarrow> number \<Rightarrow> user option \<Rightarrow> number \<Rightarrow> number \<Rightarrow> validation" where
  "validateTransactionAmount numberFormat amount user dailySpent monthlySpent =
     (case user of
        None \<Rightarrow> \<lparr>isValid = False, error = Some ''User not authenticated''\<rparr>
      | Some u \<Rightarrow>
          let limits = TRANSACTION_LIMITS (tier u) in
          if js_lt amount (min' (perTransaction limits)) then
            \<lparr>isValid = False,
             error = Some (''Minimum transfer amount is '' @
               formatCurrency numberFormat (min' (perTransaction limits)) ''USD'')\<rparr>
          else if js_gt amount (max' (perTransaction limits)) then
            \<lparr>isValid = False,
             error = Some (''Maximum transfer amount is '' @
               formatCurrency numberFormat (max' (perTransaction limits)) ''USD'')\<rparr>
          else if js_gt (js_add dailySpent amount) (daily limits) then
            \<lparr>isValid = False,
             error = Some (''Daily limit of '' @
               formatCurrency numberFormat (daily limits) ''USD'' @ '' would be exceeded'')\<rparr>
          else if js_gt (js_add monthlySpent amount) (monthly limits) then
            \<lparr>isValid = False,
             error = Some (''Monthly limit of '' @
               formatCurrency numberFormat (monthly limits) ''USD'' @ '' would be exceeded'')\<rparr>
          else \<lparr>isValid = True, error = None\<rparr>)"

subsection \<open>parseAmount\<close>

definition is_digit :: "char \<Rightarrow> bool" where
  "is_digit c = (c \<in> set ''0123456789'')"

text \<open>\<^verbatim>\<open>input.replace(/[^0-9.]/g, '')\<close>\<close>

definition clean :: "string \<Rightarrow> string" where
  "clean input = filter (\<lambda>c. is_digit c \<or> c = CHR ''.'') input"

definition digits_value :: "string \<Rightarrow> nat" where
  "digits_value ds = foldl (\<lambda>n c. 10 * n + (of_char c - 48)) 0 ds"

text \<open>
  \<^verbatim>\<open>parseFloat\<close> on a string of digits and dots, the only strings \<open>parseAmount\<close> passes to
  it: the longest prefix of the form \<^verbatim>\<open>digits\<close>, \<^verbatim>\<open>digits.digits\<close>, \<^verbatim>\<open>digits.\<close> or \<^verbatim>\<open>.digits\<close> is
  read as a decimal literal and rounded to the nearest binary64 number, as the engines do
  (the language standard allows them to drop digits after the twentieth); without such a
  prefix the result is \<^verbatim>\<open>NaN\<close>. White space, signs, exponents and \<^verbatim>\<open>Infinity\<close> cannot occur
  in a cleaned string.
\<close>

definition parseFloat :: "string \<Rightarrow> number" where
  "parseFloat s =
     (let ip = takeWhile is_digit s;
          rest = dropWhile is_digit s;
          fp = (case rest of [] \<Rightarrow> [] | c # t \<Rightarrow> if c = CHR ''.'' then takeWhile is_digit t else [])
      in if ip = [] \<and> fp = [] then NaN
         else round_double (of_nat (digits_value (ip @ fp)) / 10 ^ length fp))"

text \<open>\<^verbatim>\<open>s.split('.')\<close>\<close>

fun split_dot :: "string \<Rightarrow> string list" where
  "split_dot [] = [[]]"
| "split_dot (c # s) =
     (if c = CHR ''.'' then [] # split_dot s
      else (case split_dot s of [] \<Rightarrow> [[c]] | seg # segs \<Rightarrow> (c # seg) # segs))"

text \<open>\<^verbatim>\<open>(cleaned.split('.')[1] || '').length\<close>\<close>

definition decimalPlaces :: "string \<Rightarrow> nat" where
  "decimalPlaces cleaned = length (case split_dot cleaned of _ # f # _ \<Rightarrow> f | _ \<Rightarrow> [])"

record parsed = validation +
  amount :: number

definition parseAmount :: "string \<Rightarrow> parsed" where
  "parseAmount input =
     (let cleaned = clean input;
          amount = parseFloat cleaned
      in if js_isNaN amount then
           \<lparr>isValid = False, error = Some ''Please enter a valid amount'', amount = Fin 0\<rparr>
         else if js_le amount (Fin 0) then
           \<lparr>isValid = False, error = Some ''Amount must be greater than zero'', amount = Fin 0\<rparr>
         else if 2 < decimalPlaces cleaned then
           \<lparr>isValid = False, error = Some ''Amount cannot have more than 2 decimal places'',
            amount = Fin 0\<rparr>
         else \<lparr>isValid = True, error = None, amount = amount\<rparr>)"

subsection \<open>The fee and the final amount, in the words of the specification\<close>

text \<open>
  The specification computes the fee to full precision and rounds it up to the nearest cent:
  \<open>ceil (a \<times> 0.10 \<times> 100) / 100\<close> for the UK and \<open>ceil (a \<times> 0.20 \<times> 100) / 100\<close> for South
  Africa, and the final amount likewise, \<open>ceil ((s - f) \<times> r \<times> 100) / 100\<close>. These are the two
  formulas in exact arithmetic, on the numbers the decimal numerals denote.
\<close>

definition fee_rate :: "destination \<Rightarrow> rat" where
  "fee_rate d = (case d of UK \<Rightarrow> 10 / 100 | South_Africa \<Rightarrow> 20 / 100)"

definition exact_fee :: "rat \<Rightarrow> destination \<Rightarrow> rat" where
  "exact_fee a d = of_int \<lceil>a * fee_rate d * 100\<rceil> / 100"

definition exact_finalAmount :: "rat \<Rightarrow> rat \<Rightarrow> rat \<Rightarrow> rat" where
  "exact_finalAmount s r f = of_int \<lceil>(s - f) * r * 100\<rceil> / 100"

subsection \<open>The order of the checks, in the words of the specification\<close>

text \<open>A failure of the limit validation, with the threshold its message embeds.\<close>

datatype failure =
    Unauthenticated
  | BelowMinimum number
  | AboveMaximum number
  | DailyLimitExceeded number
  | MonthlyLimitExceeded number

text \<open>The checks in their order; \<open>find\<close> returns the first one that fails.\<close>

definition first_failure :: "number \<Rightarrow> user option \<Rightarrow> number \<Rightarrow> number \<Rightarrow> failure option" where
  "first_failure a user spentToday spentThisMonth =
     (case user of
        None \<Rightarrow> Some Unauthenticated
      | Some u \<Rightarrow>
          let l = TRANSACTION_LIMITS (tier u) in
          map_option fst (find snd
            [(BelowMinimum (min' (perTransaction l)), js_lt a (min' (perTransaction l))),
             (AboveMaximum (max' (perTransaction l)), js_gt a (max' (perTransaction l))),
             (DailyLimitExceeded (daily l), js_gt (js_add spentToday a) (daily l)),
             (MonthlyLimitExceeded (monthly l), js_gt (js_add spentThisMonth a) (monthly l))]))"

fun failure_message :: "(string \<Rightarrow> number \<Rightarrow> string) \<Rightarrow> failure \<Rightarrow> string" where
  "failure_message nf Unauthenticated = ''User not authenticated''"
| "failure_message nf (BelowMinimum l) =
     ''Minimum transfer amount is '' @ formatCurrency nf l ''USD''"
| "failure_message nf (AboveMaximum l) =
     ''Maximum transfer amount is '' @ formatCurrency nf l ''USD''"
| "failure_message nf (DailyLimitExceeded l) =
     ''Daily limit of '' @ formatCurrency nf l ''USD'' @ '' would be exceeded''"
| "failure_message nf (MonthlyLimitExceeded l) =
     ''Monthly limit of '' @ formatCurrency nf l ''USD'' @ '' would be exceeded''"

subsection \<open>The results and inputs of \<open>parseAmount\<close>, in the words of the specification\<close>

definition InvalidFormat :: parsed where
  "InvalidFormat = \<lparr>isValid = False, error = Some ''Please enter a valid amount'', amount = Fin 0\<rparr>"

definition NonPositive :: parsed where
  "NonPositive =
     \<lparr>isValid = False, error = Some ''Amount must be greater than zero'', amount = Fin 0\<rparr>"

definition TooManyDecimals :: parsed where
  "TooManyDecimals =
     \<lparr>isValid = False, error = Some ''Amount cannot have more than 2 decimal places'',
      amount = Fin 0\<rparr>"

text \<open>The fractional part of a cleaned string: what stands after its first dot, up to the
  next dot or the end.\<close>

definition fraction_digits :: "string \<Rightarrow> string" where
  "fraction_digits s =
     takeWhile (\<lambda>c. c \<noteq> CHR ''.'') (drop 1 (dropWhile (\<lambda>c. c \<noteq> CHR ''.'') s))"

text \<open>A well-formed decimal with at most two fractional digits: the digits \<open>ip\<close>, alone or
  followed by a dot and the digits \<open>fp\<close>; and the rational it denotes.\<close>

definition well_formed_decimal :: "string \<Rightarrow> string \<Rightarrow> string \<Rightarrow> bool" where
  "well_formed_decimal s ip fp =
     ((s = ip \<and> fp = [] \<or> s = ip @ CHR ''.'' # fp) \<and> ip \<noteq> []
      \<and> list_all is_digit ip \<and> list_all is_digit fp \<and> length fp \<le> 2)"

definition decimal_value :: "string \<Rightarrow> string \<Rightarrow> rat" where
  "decimal_value ip fp = of_nat (digits_value (ip @ fp)) / 10 ^ length fp"

section \<open>The API service: getExchangeRates\<close>

text \<open>A value produced by \<^verbatim>\<open>response.json()\<close>. An object lists its properties in enumeration
  order, with distinct keys.\<close>

datatype json =
    JNull
  | JBool bool
  | JNumber number
  | JString string
  | JArray "json list"
  | JObject "(string \<times> json) list"

text \<open>
  The \<^verbatim>\<open>ExchangeRate\<close> object. Its four properties are declared numbers, but
  \<^verbatim>\<open>(rates as any)[currency] = item[currency]\<close> stores whatever the payload holds, so a field
  is a \<open>json\<close> value.
\<close>

record ExchangeRate =
  USD :: json
  GBP :: json
  ZAR :: json
  USDT :: json

record api_error =
  code :: string
  message :: string

text \<open>An \<^verbatim>\<open>APIResponse<T>\<close> is either \<^verbatim>\<open>{success: false, error}\<close> (\<open>Inl\<close>) or
  \<^verbatim>\<open>{success: true, data}\<close> (\<open>Inr\<close>); the time stamp, read from the clock, is left out.\<close>

type_synonym 'a APIResponse = "api_error + 'a"

text \<open>
  \<^verbatim>\<open>if (currency in rates) rates[currency] = value\<close>. The four currency codes are own
  properties of \<open>rates\<close> throughout, so the test succeeds for them. A key that is not one of
  the four (a name inherited from \<^verbatim>\<open>Object.prototype\<close> passes the test as well) leaves the
  four fields as they are; what it does to the rest of the object is not tracked.
\<close>

definition set_rate :: "ExchangeRate \<Rightarrow> string \<Rightarrow> json \<Rightarrow> ExchangeRate" where
  "set_rate rates currency v =
     (if currency = ''USD'' then rates\<lparr>USD := v\<rparr>
      else if currency = ''GBP'' then rates\<lparr>GBP := v\<rparr>
      else if currency = ''ZAR'' then rates\<lparr>ZAR := v\<rparr>
      else if currency = ''USDT'' then rates\<lparr>USDT := v\<rparr>
      else rates)"

text \<open>
  \<^verbatim>\<open>Object.keys(item).forEach(...)\<close> for one item of the payload. \<^verbatim>\<open>Object.keys(null)\<close>
  throws (\<open>None\<close>); the keys of an array or a string are indices and a number or a boolean
  has no keys, so none of them is a currency code.
\<close>

fun apply_item :: "ExchangeRate \<Rightarrow> json \<Rightarrow> ExchangeRate option" where
  "apply_item rates JNull = None"
| "apply_item rates (JObject kvs) = Some (foldl (\<lambda>r (k, v). set_rate r k v) rates kvs)"
| "apply_item rates item = Some rates"

fun apply_items :: "ExchangeRate \<Rightarrow> json list \<Rightarrow> ExchangeRate option" where
  "apply_items rates [] = Some rates"
| "apply_items rates (item # items) =
     (case apply_item rates item of None \<Rightarrow> None | Some rates' \<Rightarrow> apply_items rates' items)"

definition default_rates :: ExchangeRate where
  "default_rates =
     \<lparr>USD = JNumber (Fin 1), GBP = JNumber (round_double (74 / 100)),
      ZAR = JNumber (round_double (1775 / 100)), USDT = JNumber (Fin 1)\<rparr>"

definition EXCHANGE_RATES_ERROR :: api_error where
  "EXCHANGE_RATES_ERROR =
     \<lparr>code = ''EXCHANGE_RATES_ERROR'', message = ''Failed to fetch current exchange rates''\<rparr>"

text \<open>
  \<open>getExchangeRates\<close> as a function of what \<^verbatim>\<open>makeRequest\<close> returned. A failed request, a
  falsy payload, a payload that is no array (\<^verbatim>\<open>forEach\<close> is missing) and a \<^verbatim>\<open>null\<close> item all end
  in the \<^verbatim>\<open>catch\<close> block.
\<close>

definition getExchangeRates :: "json APIResponse \<Rightarrow> ExchangeRate APIResponse" where
  "getExchangeRates response =
     (case response of
        Inl e \<Rightarrow> Inl EXCHANGE_RATES_ERROR
      | Inr (JArray items) \<Rightarrow>
          (case apply_items default_rates items of
             None \<Rightarrow> Inl EXCHANGE_RATES_ERROR
           | Some rates \<Rightarrow> Inr rates)
      | Inr _ \<Rightarrow> Inl EXCHANGE_RATES_ERROR)"

text \<open>The values a payload supplies for one currency code, in the order they are stored.\<close>

fun item_values :: "string \<Rightarrow> json \<Rightarrow> json list" where
  "item_values k (JObject kvs) = map snd (filter (\<lambda>kv. fst kv = k) kvs)"
| "item_values k item = []"

definition supplied :: "string \<Rightarrow> json list \<Rightarrow> json list" where
  "supplied k items = concat (map (item_values k) items)"

definition latest :: "json \<Rightarrow> json list \<Rightarrow> json" where
  "latest d vs = (if vs = [] then d else last vs)"

fun positive_rate :: "json \<Rightarrow> bool" where
  "positive_rate (JNumber n) = js_gt n (Fin 0)"
| "positive_rate v = False"

text \<open>The items of a payload that produces a table.\<close>

fun payload_items :: "json APIResponse \<Rightarrow> json list" where
  "payload_items (Inr (JArray items)) = items"
| "payload_items response = []"

section \<open>Properties of the rounding\<close>

lemma two_powi_le: "m \<le> n \<Longrightarrow> (2::rat) powi m \<le> 2 powi n"
  by (rule power_int_increasing) simp_all

lemma two_powi_less_imp: "(2::rat) powi m < 2 powi n \<Longrightarrow> m < n"
  using two_powi_le [of n m] by (cases "m < n") auto

lemma bitlen_pos_bounds:
  fixes p :: int
  assumes "0 < p"
  shows "(2::rat) powi (bitlen p - 1) \<le> of_int p" and "of_int p < (2::rat) powi (bitlen p)"
proof -
  from bitlen_bounds [OF assms]
  have lo: "2 ^ nat (bitlen p - 1) \<le> p" and hi: "p < 2 ^ nat (bitlen p)" by auto
  have b1: "1 \<le> bitlen p" using assms by (simp add: bitlen_alt_def)
  have "(of_int (2 ^ nat (bitlen p - 1)) :: rat) \<le> of_int p"
    using lo by (simp only: of_int_le_iff)
  then show "(2::rat) powi (bitlen p - 1) \<le> of_int p"
    using b1 by (simp add: power_int_def)
  have "(of_int p :: rat) < of_int (2 ^ nat (bitlen p))"
    using hi by (simp only: of_int_less_iff)
  then show "of_int p < (2::rat) powi (bitlen p)"
    using b1 by (simp add: power_int_def)
qed

text \<open>\<open>ilog2\<close> is the binary logarithm rounded down.\<close>

lemma ilog2_bounds:
  assumes "0 < x"
  shows "2 powi (ilog2 x) \<le> x" and "x < 2 powi (ilog2 x + 1)"
proof -
  obtain p q where pq: "quotient_of x = (p, q)" by (cases "quotient_of x")
  have q: "0 < q" using pq quotient_of_denom_pos by blast
  have x: "x = of_int p / of_int q" using pq quotient_of_div by blast
  have p: "0 < p" using assms q x by (simp add: zero_less_divide_iff)
  define l where "l = bitlen p - bitlen q"
  note P = bitlen_pos_bounds [OF p] and Q = bitlen_pos_bounds [OF q]
  have qr: "(0::rat) < of_int q" using q by simp
  have up: "x < 2 powi (l + 1)"
  proof -
    have "of_int p < (2::rat) powi (bitlen p)" by (rule P)
    also have "\<dots> = 2 powi (l + 1) * 2 powi (bitlen q - 1)"
      by (simp add: l_def flip: power_int_add)
    also have "\<dots> \<le> 2 powi (l + 1) * of_int q"
      using Q(1) by (intro mult_left_mono) auto
    finally show ?thesis using qr by (simp add: x pos_divide_less_eq)
  qed
  have lo: "2 powi (l - 1) \<le> x"
  proof -
    have "(2::rat) powi (l - 1) * of_int q \<le> 2 powi (l - 1) * 2 powi (bitlen q)"
      using Q(2) by (intro mult_left_mono) auto
    also have "\<dots> = 2 powi (bitlen p - 1)"
      by (simp add: l_def flip: power_int_add)
    also have "\<dots> \<le> of_int p" by (rule P)
    finally show ?thesis using qr by (simp add: x pos_le_divide_eq)
  qed
  have il: "ilog2 x = (if 2 powi l \<le> x then l else l - 1)"
    by (simp add: ilog2_def pq l_def Let_def)
  show "2 powi (ilog2 x) \<le> x" using lo by (simp add: il)
  show "x < 2 powi (ilog2 x + 1)" using up by (auto simp add: il not_le)
qed

lemma ilog2_mono:
  assumes "0 < a" "a \<le> b"
  shows "ilog2 a \<le> ilog2 b"
proof -
  have "(2::rat) powi (ilog2 a) \<le> a" using assms(1) by (rule ilog2_bounds)
  also have "a \<le> b" by fact
  also have "b < 2 powi (ilog2 b + 1)" using assms by (intro ilog2_bounds) simp
  finally have "ilog2 a < ilog2 b + 1" by (rule two_powi_less_imp)
  then show ?thesis by simp
qed

lemma ilog2_unique:
  assumes "2 powi l \<le> x" "x < 2 powi (l + 1)"
  shows "ilog2 x = l"
proof -
  have x: "0 < x" using assms(1) by (rule less_le_trans [rotated]) simp
  have "(2::rat) powi l \<le> x" by fact
  also have "x < 2 powi (ilog2 x + 1)" using x by (rule ilog2_bounds)
  finally have 1: "l < ilog2 x + 1" by (rule two_powi_less_imp)
  have "(2::rat) powi (ilog2 x) \<le> x" using x by (rule ilog2_bounds)
  also have "x < 2 powi (l + 1)" by fact
  finally have 2: "ilog2 x < l + 1" by (rule two_powi_less_imp)
  from 1 2 show ?thesis by simp
qed

lemma round_half_even_mono:
  assumes "z \<le> z'"
  shows "round_half_even z \<le> round_half_even z'"
proof -
  have fl: "\<lfloor>z\<rfloor> \<le> \<lfloor>z'\<rfloor>" using assms by (rule floor_mono)
  have lo: "\<lfloor>w\<rfloor> \<le> round_half_even w" and hi: "round_half_even w \<le> \<lfloor>w\<rfloor> + 1" for w
    by (simp_all add: round_half_even_def Let_def)
  show ?thesis
  proof (cases "\<lfloor>z\<rfloor> = \<lfloor>z'\<rfloor>")
    case True
    then show ?thesis using assms by (auto simp add: round_half_even_def Let_def)
  next
    case False
    then have "\<lfloor>z\<rfloor> + 1 \<le> \<lfloor>z'\<rfloor>" using fl by simp
    then show ?thesis using lo [of z'] hi [of z] by linarith
  qed
qed

lemma round_half_even_of_int [simp]: "round_half_even (of_int n) = n"
  by (simp add: round_half_even_def)

lemma round_half_even_nonneg: "0 \<le> z \<Longrightarrow> 0 \<le> round_half_even z"
  using round_half_even_mono [of 0 z] round_half_even_of_int [of 0] by simp

lemma round_half_even_near:
  assumes "\<bar>z - of_int m\<bar> < 1 / 2"
  shows "round_half_even z = m"
proof -
  consider "of_int m \<le> z" | "z < of_int m" by linarith
  then show ?thesis
  proof cases
    case 1
    then have "\<lfloor>z\<rfloor> = m" using assms by (intro floor_unique) auto
    then show ?thesis using assms 1 by (simp add: round_half_even_def Let_def)
  next
    case 2
    then have f: "\<lfloor>z\<rfloor> = m - 1" using assms by (intro floor_unique) auto
    have "1 / 2 < z - of_int (m - 1)" using assms 2 by simp
    then show ?thesis by (simp add: round_half_even_def Let_def f)
  qed
qed

lemma round_magnitude_ge_spacing:
  assumes "0 < a" "2 powi (- 1074) \<le> a"
  shows "2 powi (max (ilog2 a - 52) (- 1074)) \<le> round_magnitude a"
proof -
  define e where "e = max (ilog2 a - 52) (- 1074)"
  have pe: "(0::rat) < 2 powi e" by simp
  have "(2::rat) powi e \<le> a"
  proof (cases "ilog2 a - 52 \<le> - 1074")
    case True then show ?thesis using assms(2) by (simp add: e_def max_def)
  next
    case False
    then have "e = ilog2 a - 52" by (simp add: e_def)
    then have "(2::rat) powi e \<le> 2 powi (ilog2 a)"
      by (intro two_powi_le) simp
    also have "\<dots> \<le> a" using assms(1) by (rule ilog2_bounds)
    finally show ?thesis .
  qed
  then have "1 \<le> a / 2 powi e" using pe by (simp add: pos_le_divide_eq)
  then have "round_half_even (of_int 1) \<le> round_half_even (a / 2 powi e)"
    by (intro round_half_even_mono) simp
  then have "1 \<le> round_half_even (a / 2 powi e)" by (simp only: round_half_even_of_int)
  then have "(1::rat) \<le> of_int (round_half_even (a / 2 powi e))" by simp
  then have "1 * (2::rat) powi e \<le> of_int (round_half_even (a / 2 powi e)) * 2 powi e"
    by (intro mult_right_mono) simp_all
  then show ?thesis by (simp add: round_magnitude_def spacing_def Let_def e_def)
qed

lemma round_magnitude_nonneg:
  assumes "0 < a"
  shows "0 \<le> round_magnitude a"
proof -
  have "0 \<le> a / 2 powi (max (ilog2 a - 52) (- 1074))" using assms by simp
  then have "0 \<le> round_half_even (a / 2 powi (max (ilog2 a - 52) (- 1074)))"
    by (rule round_half_even_nonneg)
  then show ?thesis by (simp add: round_magnitude_def spacing_def Let_def)
qed

lemma round_magnitude_lower:
  assumes "0 < a" "- 1074 \<le> ilog2 a - 52"
  shows "2 powi (ilog2 a) \<le> round_magnitude a"
proof -
  define e where "e = ilog2 a - 52"
  have e: "max (ilog2 a - 52) (- 1074) = e" using assms(2) by (simp add: e_def)
  have pe: "(0::rat) < 2 powi e" by simp
  have "(2::rat) powi (ilog2 a) \<le> a" using assms(1) by (rule ilog2_bounds)
  then have "(2::rat) powi (e + 52) \<le> a" by (simp add: e_def)
  then have "(2::rat) ^ 52 * 2 powi e \<le> a" by (simp add: power_int_add mult.commute)
  then have "(2::rat) ^ 52 \<le> a / 2 powi e" using pe by (simp add: pos_le_divide_eq)
  then have "round_half_even (of_int (2 ^ 52)) \<le> round_half_even (a / 2 powi e)"
    by (intro round_half_even_mono) simp
  then have "(2::int) ^ 52 \<le> round_half_even (a / 2 powi e)"
    by (simp only: round_half_even_of_int)
  then have "(of_int (2 ^ 52) :: rat) \<le> of_int (round_half_even (a / 2 powi e))"
    by (simp only: of_int_le_iff)
  then have "of_int (2 ^ 52) * 2 powi e \<le> of_int (round_half_even (a / 2 powi e)) * (2::rat) powi e"
    by (intro mult_right_mono) simp_all
  moreover have "of_int (2 ^ 52) * 2 powi e = (2::rat) powi (ilog2 a)"
    by (simp add: e_def power_int_diff)
  ultimately have "(2::rat) powi (ilog2 a) \<le> of_int (round_half_even (a / 2 powi e)) * 2 powi e"
    by (simp only:)
  then show ?thesis by (simp only: round_magnitude_def spacing_def Let_def e)
qed

lemma round_magnitude_upper:
  assumes "0 < a"
  shows "round_magnitude a \<le> 2 powi (max (ilog2 a - 52) (- 1074) + 53)"
proof -
  define e where "e = max (ilog2 a - 52) (- 1074)"
  have pe: "(0::rat) < 2 powi e" by simp
  have "a < 2 powi (ilog2 a + 1)" using assms by (rule ilog2_bounds)
  also have "\<dots> \<le> 2 powi (e + 53)"
    by (intro two_powi_le) (simp add: e_def)
  also have "\<dots> = 2 ^ 53 * 2 powi e" by (simp add: power_int_add mult.commute)
  finally have "a / 2 powi e \<le> 2 ^ 53" using pe by (simp add: pos_divide_le_eq)
  then have "round_half_even (a / 2 powi e) \<le> round_half_even (of_int (2 ^ 53))"
    by (intro round_half_even_mono) simp
  then have "round_half_even (a / 2 powi e) \<le> 2 ^ 53"
    by (simp only: round_half_even_of_int)
  then have "(of_int (round_half_even (a / 2 powi e)) :: rat) \<le> of_int (2 ^ 53)"
    by (simp only: of_int_le_iff)
  then have "of_int (round_half_even (a / 2 powi e)) * 2 powi e \<le> (2::rat) ^ 53 * 2 powi e"
    by (intro mult_right_mono) simp_all
  then show ?thesis by (simp add: round_magnitude_def spacing_def Let_def e_def power_int_add mult.commute)
qed

lemma round_magnitude_mono:
  assumes "0 < a" "a \<le> b"
  shows "round_magnitude a \<le> round_magnitude b"
proof -
  define ea where "ea = max (ilog2 a - 52) (- 1074)"
  define eb where "eb = max (ilog2 b - 52) (- 1074)"
  have b: "0 < b" using assms by simp
  have le: "ea \<le> eb" using ilog2_mono [OF assms] by (simp add: ea_def eb_def)
  show ?thesis
  proof (cases "ea = eb")
    case True
    have "a / 2 powi eb \<le> b / 2 powi eb" using assms(2) by (simp add: divide_right_mono)
    then have "round_half_even (a / 2 powi eb) \<le> round_half_even (b / 2 powi eb)"
      by (rule round_half_even_mono)
    then have "(of_int (round_half_even (a / 2 powi eb)) :: rat) * 2 powi eb
        \<le> of_int (round_half_even (b / 2 powi eb)) * 2 powi eb"
      by (intro mult_right_mono) simp_all
    then show ?thesis using True by (simp add: round_magnitude_def spacing_def Let_def ea_def eb_def)
  next
    case False
    then have lt: "ea + 1 \<le> eb" using le by simp
    then have eb: "- 1074 \<le> ilog2 b - 52" "eb = ilog2 b - 52"
      by (auto simp add: ea_def eb_def)
    have "round_magnitude a \<le> 2 powi (ea + 53)"
      unfolding ea_def using assms(1) by (rule round_magnitude_upper)
    also have "\<dots> \<le> 2 powi (ilog2 b)"
      using lt eb(2) by (intro two_powi_le) simp
    also have "\<dots> \<le> round_magnitude b" using b eb(1) by (rule round_magnitude_lower)
    finally show ?thesis .
  qed
qed

text \<open>Rounding never yields \<^verbatim>\<open>NaN\<close>, keeps the order, and overflows from \<open>2\<^sup>1\<^sup>0\<^sup>2\<^sup>4\<close> on.\<close>

lemma round_double_not_NaN [simp]: "round_double x \<noteq> NaN"
  by (simp add: round_double_def Let_def)

lemma round_double_zero [simp]: "round_double 0 = Fin 0"
  by (simp add: round_double_def)

lemma round_double_mono:
  assumes "x \<le> y"
  shows "js_le (round_double x) (round_double y)"
proof -
  consider "x = 0" | "0 < x" | "x < 0" by linarith
  then show ?thesis
  proof cases
    case 1
    then show ?thesis using assms round_magnitude_nonneg [of y]
      by (auto simp add: round_double_def Let_def)
  next
    case 2
    then have "round_magnitude x \<le> round_magnitude y" using assms by (intro round_magnitude_mono)
    then show ?thesis using 2 assms by (auto simp add: round_double_def Let_def)
  next
    case 3
    show ?thesis
    proof (cases "y < 0")
      case True
      then have "round_magnitude \<bar>y\<bar> \<le> round_magnitude \<bar>x\<bar>"
        using assms by (intro round_magnitude_mono) simp_all
      then show ?thesis using 3 True by (auto simp add: round_double_def Let_def)
    next
      case False
      then show ?thesis
        using 3 round_magnitude_nonneg [of "\<bar>x\<bar>"] round_magnitude_nonneg [of "\<bar>y\<bar>"]
        by (auto simp add: round_double_def Let_def)
    qed
  qed
qed

lemma round_double_overflow:
  assumes "2 ^ 1024 \<le> x"
  shows "round_double x = PosInf"
proof -
  have x: "0 < x" using assms by (rule less_le_trans [rotated]) simp
  have "(2::rat) powi 1024 \<le> x" using assms by simp
  also have "x < 2 powi (ilog2 x + 1)" using x by (rule ilog2_bounds)
  finally have "1024 < ilog2 x + 1" by (rule two_powi_less_imp)
  then have l: "1024 \<le> ilog2 x" by simp
  then have "(2::rat) powi 1024 \<le> 2 powi (ilog2 x)" by (rule two_powi_le)
  also have "\<dots> \<le> round_magnitude x" using x l by (intro round_magnitude_lower) simp_all
  finally show ?thesis using x by (simp add: round_double_def Let_def)
qed

lemma round_double_positive:
  assumes "2 powi (- 1074) \<le> x"
  shows "js_lt (Fin 0) (round_double x)"
proof -
  have x: "0 < x" using assms by (rule less_le_trans [rotated]) simp
  have "(0::rat) < 2 powi (max (ilog2 x - 52) (- 1074))" by simp
  also have "\<dots> \<le> round_magnitude x" using x assms by (rule round_magnitude_ge_spacing)
  finally show ?thesis using x by (simp add: round_double_def Let_def)
qed

text \<open>
  Evaluation of a rounding: a positive \<open>x\<close> between \<open>2\<^sup>5\<^sup>2 s\<close> and \<open>2\<^sup>5\<^sup>3 s\<close> for a spacing
  \<open>s = 2\<^sup>e\<close> rounds to the multiple \<open>m s\<close> that is closer to it than half the spacing.
\<close>

lemma round_double_eq:
  assumes s: "s = 2 powi e" and e: "- 1074 \<le> e"
    and lo: "2 ^ 52 * s \<le> x" and hi: "x < 2 ^ 53 * s"
    and y: "y = of_int m * s" and near: "\<bar>x - y\<bar> * 2 < s" and fin: "y < 2 ^ 1024"
  shows "round_double x = Fin y"
proof -
  have sp: "0 < s" by (simp add: s)
  have x: "0 < x" using lo sp by (rule_tac less_le_trans [rotated]) simp_all
  have "(2::rat) powi (e + 52) = 2 ^ 52 * s" by (simp add: s power_int_add mult.commute)
  moreover have "(2::rat) powi (e + 52 + 1) = 2 ^ 53 * s"
    by (simp add: s power_int_add mult.commute)
  ultimately have "ilog2 x = e + 52" using lo hi by (intro ilog2_unique) simp_all
  then have ex: "max (ilog2 x - 52) (- 1074) = e" using e by simp
  have "\<bar>x / s - of_int m\<bar> = \<bar>x - y\<bar> / s" using sp by (simp add: y field_simps abs_if)
  also have "\<dots> < 1 / 2" using near sp by (simp add: field_simps)
  finally have "round_half_even (x / s) = m" by (rule round_half_even_near)
  then have "round_magnitude x = y" by (simp add: round_magnitude_def spacing_def Let_def ex y flip: s)
  then show ?thesis using x fin by (simp add: round_double_def Let_def)
qed

lemma round_double_eval:
  assumes "- 1074 \<le> e" and "2 ^ 52 * 2 powi e \<le> x" and "x < 2 ^ 53 * 2 powi e"
    and "y = of_int m * 2 powi e" and "\<bar>x - y\<bar> * 2 < 2 powi e" and "y < 2 ^ 1024"
  shows "round_double x = Fin y"
  using refl assms by (rule round_double_eq)

text \<open>
  The numbers \<open>round_magnitude\<close> returns are the multiples of their own spacing, and they
  are fixed points of the rounding.
\<close>

lemma round_magnitude_spacing:
  "round_magnitude a = of_int (round_half_even (a / spacing a)) * spacing a"
  by (simp add: round_magnitude_def)

lemma spacing_pos [simp]: "0 < spacing a"
  by (simp add: spacing_def)

lemma spacing_multiple:
  assumes "max (ilog2 a - 52) (- 1074) \<le> max (ilog2 b - 52) (- 1074)"
  shows "\<exists>j::nat. spacing b = 2 ^ j * spacing a"
proof -
  define ea where "ea = max (ilog2 a - 52) (- 1074)"
  define eb where "eb = max (ilog2 b - 52) (- 1074)"
  define k where "k = nat (eb - ea)"
  have "ea \<le> eb" using assms by (simp only: ea_def eb_def)
  then have "eb = int k + ea" by (simp add: k_def)
  then have "(2::rat) powi eb = 2 powi (int k) * 2 powi ea" by (simp add: power_int_add)
  then have "(2::rat) powi eb = 2 ^ k * 2 powi ea" by simp
  then have "spacing b = 2 ^ k * spacing a" by (simp only: spacing_def ea_def eb_def)
  then show ?thesis ..
qed

lemma round_half_even_error: "\<bar>z - of_int (round_half_even z)\<bar> \<le> 1 / 2"
proof -
  have "of_int \<lfloor>z\<rfloor> \<le> z" "z < of_int \<lfloor>z\<rfloor> + 1" by linarith+
  then show ?thesis by (auto simp add: round_half_even_def Let_def)
qed

lemma round_half_even_half:
  "round_half_even (of_int n + 1 / 2) = (if even n then n else n + 1)"
proof -
  have "\<lfloor>of_int n + (1 / 2 :: rat)\<rfloor> = n" by (intro floor_unique) simp_all
  then show ?thesis by (simp add: round_half_even_def Let_def)
qed

lemma round_half_even_ge:
  assumes "of_int n - 1 / 2 < z"
  shows "n \<le> round_half_even z"
proof (cases "\<bar>z - of_int n\<bar> < 1 / 2")
  case True
  then show ?thesis by (simp add: round_half_even_near)
next
  case False
  then have "of_int n \<le> z" using assms by linarith
  then have "round_half_even (of_int n) \<le> round_half_even z" by (rule round_half_even_mono)
  then show ?thesis by simp
qed

lemma round_magnitude_error: "\<bar>x - round_magnitude x\<bar> \<le> spacing x / 2"
proof -
  define s where "s = spacing x"
  define m where "m = round_half_even (x / s)"
  have s: "0 < s" by (simp add: s_def)
  have "\<bar>x / s - of_int m\<bar> \<le> 1 / 2" unfolding m_def by (rule round_half_even_error)
  then have "\<bar>x / s - of_int m\<bar> * s \<le> 1 / 2 * s"
    using s by (intro mult_right_mono) simp_all
  moreover have "\<bar>x / s - of_int m\<bar> * s = \<bar>(x / s - of_int m) * s\<bar>"
    using s by (simp add: abs_mult)
  moreover have "(x / s - of_int m) * s = x - of_int m * s"
    using s by (simp add: field_simps)
  ultimately have "\<bar>x - of_int m * s\<bar> \<le> s / 2" by simp
  then show ?thesis by (simp only: round_magnitude_spacing s_def m_def)
qed

lemma round_magnitude_fixed:
  assumes "y = of_int m * spacing y"
  shows "round_magnitude y = y"
proof -
  define s where "s = spacing y"
  have "0 < s" by (simp add: s_def)
  then have s: "s \<noteq> 0" by simp
  have ys: "y = of_int m * s" using assms by (simp only: s_def)
  have "of_int m * s / s = (of_int m :: rat)" using s by simp
  then have q: "y / s = of_int m" by (simp only: ys [symmetric])
  have "round_magnitude y = of_int (round_half_even (y / s)) * s"
    by (simp only: round_magnitude_spacing s_def)
  also have "\<dots> = of_int m * s" by (simp only: q round_half_even_of_int)
  finally show ?thesis by (simp only: ys [symmetric])
qed

lemma representable_intro:
  assumes m: "1 \<le> m" "m \<le> 2 ^ 53" and e: "- 1074 \<le> e" and y: "y = of_int m * 2 powi e"
  shows "\<exists>m'. y = of_int m' * spacing y"
proof (cases "m = 2 ^ 53")
  case True
  then have y2: "y = 2 powi (e + 53)" by (simp add: y power_int_add mult.commute)
  then have "ilog2 y = e + 53" by (intro ilog2_unique) (simp_all add: power_int_add)
  then have "spacing y = 2 powi (e + 1)" using e by (simp add: spacing_def max_def add.commute)
  then have "y = of_int (2 ^ 52) * spacing y" by (simp add: y2 power_int_add)
  then show ?thesis ..
next
  case False
  then have "m < 2 ^ 53" using m(2) by simp
  then have "(of_int m :: rat) < of_int (2 ^ 53)" by (simp only: of_int_less_iff)
  then have "of_int m * 2 powi e < (of_int (2 ^ 53) :: rat) * 2 powi e"
    by (intro mult_strict_right_mono) simp_all
  then have up: "y < 2 powi (e + 53)" by (simp add: y power_int_add mult.commute)
  have ypos: "0 < y" using m(1) by (simp add: y)
  have "(2::rat) powi (ilog2 y) \<le> y" using ypos by (rule ilog2_bounds)
  also note up
  finally have "ilog2 y < e + 53" by (rule two_powi_less_imp)
  then have le: "max (ilog2 y - 52) (- 1074) \<le> e" using e by simp
  define k where "k = nat (e - max (ilog2 y - 52) (- 1074))"
  have "(2::rat) powi e = 2 powi (int k) * 2 powi (max (ilog2 y - 52) (- 1074))"
    using le by (simp add: k_def flip: power_int_add)
  then have "y = of_int (m * 2 ^ k) * spacing y" by (simp add: y spacing_def)
  then show ?thesis ..
qed

lemma round_magnitude_representable:
  assumes "0 < x" "0 < round_magnitude x"
  shows "\<exists>m. round_magnitude x = of_int m * spacing (round_magnitude x)"
proof -
  define e where "e = max (ilog2 x - 52) (- 1074)"
  define m where "m = round_half_even (x / 2 powi e)"
  have y: "round_magnitude x = of_int m * 2 powi e"
    by (simp add: round_magnitude_def spacing_def Let_def e_def m_def)
  have "0 < (of_int m :: rat) * 2 powi e" using assms(2) y by simp
  moreover have "(0::rat) < 2 powi e" by simp
  ultimately have "0 < (of_int m :: rat)" by (rule zero_less_mult_pos2)
  then have m1: "1 \<le> m" by simp
  have "of_int m * 2 powi e \<le> (2::rat) powi (e + 53)"
    using round_magnitude_upper [OF assms(1)] y by (simp add: e_def)
  also have "\<dots> = of_int (2 ^ 53) * 2 powi e" by (simp add: power_int_add mult.commute)
  finally have "(of_int m :: rat) \<le> of_int (2 ^ 53)" by (simp only: mult_le_cancel_right) simp
  then have m2: "m \<le> 2 ^ 53" by (simp only: of_int_le_iff)
  show ?thesis using m1 m2 _ y by (rule representable_intro) (simp add: e_def)
qed

lemma round_magnitude_idem:
  assumes "0 < x" "0 < round_magnitude x"
  shows "round_magnitude (round_magnitude x) = round_magnitude x"
  using round_magnitude_representable [OF assms] round_magnitude_fixed by blast

lemma round_magnitude_hundred_power:
  assumes "- 1022 \<le> k"
  shows "round_magnitude (100 * 2 powi k) = 100 * 2 powi k"
proof -
  define y :: rat where "y = 100 * 2 powi k"
  have "(2::rat) powi (k + 6) = 64 * 2 powi k" "(2::rat) powi (k + 6 + 1) = 128 * 2 powi k"
    by (simp_all add: power_int_add)
  then have "ilog2 y = k + 6" unfolding y_def by (intro ilog2_unique) simp_all
  then have sp: "spacing y = 2 powi (k - 46)" using assms by (simp add: spacing_def max_def)
  have "(2::rat) powi k = 2 ^ 46 * 2 powi (k - 46)"
    using power_int_add [of "2::rat" 46 "k - 46"] by simp
  then have "y = of_int (100 * 2 ^ 46) * 2 powi (k - 46)" by (simp add: y_def)
  then have "y = of_int (100 * 2 ^ 46) * spacing y" unfolding sp .
  then have "round_magnitude y = y" by (rule round_magnitude_fixed)
  then show ?thesis by (simp only: y_def)
qed

lemma ceiling_multiple:
  fixes x :: rat
  assumes "x = of_int m * 2 powi e"
  shows "\<exists>n. of_int \<lceil>x\<rceil> = (of_int n :: rat) * 2 powi e"
proof (cases "0 \<le> e")
  case True
  then have "(2::rat) powi e = of_int (2 ^ nat e)" by (simp add: power_int_def)
  then have "x = of_int (m * 2 ^ nat e)" using assms by simp
  then have "\<lceil>x\<rceil> = m * 2 ^ nat e" by (simp only: ceiling_of_int)
  then have "of_int \<lceil>x\<rceil> = (of_int m :: rat) * 2 powi e"
    using \<open>(2::rat) powi e = of_int (2 ^ nat e)\<close> by simp
  then show ?thesis ..
next
  case False
  then have "(2::rat) powi e * 2 ^ nat (- e) = 1"
    by (simp add: power_int_def field_simps)
  then have "of_int \<lceil>x\<rceil> = (of_int (\<lceil>x\<rceil> * 2 ^ nat (- e)) :: rat) * 2 powi e"
    by (simp add: mult.assoc mult.commute)
  then show ?thesis ..
qed

lemma multiples_gap:
  fixes s :: rat
  assumes "0 < s" "x = of_int a * s" "y = of_int b * s" "y < x"
  shows "y + s \<le> x"
proof -
  have "(of_int b :: rat) * s < of_int a * s" using assms by simp
  then have "(of_int b :: rat) < of_int a" using assms(1) by (simp add: mult_less_cancel_right)
  then have "b + 1 \<le> a" by simp
  then have "(of_int (b + 1) :: rat) \<le> of_int a" by (simp only: of_int_le_iff)
  then have "(of_int (b + 1) :: rat) * s \<le> of_int a * s"
    using assms(1) by (intro mult_right_mono) simp_all
  then show ?thesis using assms by (simp add: algebra_simps)
qed

lemma tie_contradiction:
  fixes s :: rat
  assumes s: "0 < s"
    and m2: "round_half_even (b / s) = m2"
    and d: "round_half_even (a / s) < m2"
    and close: "of_int m2 * s - a \<le> b - of_int m2 * s"
  shows False
proof -
  define u where "u = a / s"
  define v where "v = b / s"
  have rv: "round_half_even v = m2" and ru: "round_half_even u < m2"
    using m2 d by (simp_all only: u_def v_def)
  have ev: "\<bar>v - of_int m2\<bar> \<le> 1 / 2" using round_half_even_error [of v] by (simp only: rv)
  have c: "of_int m2 - u \<le> v - of_int m2"
  proof -
    have "(of_int m2 * s - a) / s \<le> (b - of_int m2 * s) / s"
      using close s by (intro divide_right_mono) simp_all
    then show ?thesis using s by (simp add: diff_divide_distrib u_def v_def)
  qed
  have "\<not> of_int m2 - 1 / 2 < u"
    using round_half_even_ge [of m2 u] ru by auto
  then have u: "u = of_int (m2 - 1) + 1 / 2" and v: "v = of_int m2 + 1 / 2"
    using ev c by simp_all
  have "even (m2 - 1)"
    using ru round_half_even_half [of "m2 - 1"] unfolding u by (simp split: if_splits)
  moreover have "even m2"
    using rv round_half_even_half [of m2] unfolding v by (simp split: if_splits)
  ultimately show False by simp
qed

lemma fee_core:
  fixes X1 :: rat
  assumes X1: "0 < X1" "X1 = of_int m1 * spacing X1"
    and pos: "0 < round_magnitude (X1 / 100)"
  shows "round_magnitude (X1 / 100) \<le>
    round_magnitude (of_int \<lceil>round_magnitude (100 * round_magnitude (X1 / 100))\<rceil> / 100)"
proof (rule ccontr)
  define b where "b = X1 / 100"
  define X2 where "X2 = round_magnitude b"
  define X3 where "X3 = round_magnitude (100 * X2)"
  define c :: rat where "c = of_int \<lceil>X3\<rceil>"
  define a where "a = c / 100"
  assume "\<not> ?thesis"
  then have lt: "round_magnitude a < X2"
    by (simp add: a_def c_def X3_def X2_def b_def)
  have b: "0 < b" using X1(1) by (simp add: b_def)
  have X2: "0 < X2" using pos by (simp add: X2_def b_def)
  have fixed: "round_magnitude X2 = X2"
    unfolding X2_def using b X2 [unfolded X2_def] by (rule round_magnitude_idem)
  have ab: "a < b"
  proof (rule ccontr)
    assume "\<not> a < b"
    then have "b \<le> a" by simp
    with b have "round_magnitude b \<le> round_magnitude a" by (rule round_magnitude_mono)
    then show False using lt by (simp add: X2_def)
  qed
  have aX2: "a < X2"
  proof (rule ccontr)
    assume "\<not> a < X2"
    then have "X2 \<le> a" by simp
    with X2 have "round_magnitude X2 \<le> round_magnitude a" by (rule round_magnitude_mono)
    then show False using lt fixed by simp
  qed
  have cX1: "c < X1" using ab by (simp add: a_def b_def)
  have c100: "c < 100 * X2" using aX2 by (simp add: a_def)
  have X3c: "X3 \<le> c" by (simp add: c_def)
  have X3: "0 < X3"
  proof -
    have "X2 \<le> 100 * X2" using X2 by simp
    with X2 have "round_magnitude X2 \<le> round_magnitude (100 * X2)" by (rule round_magnitude_mono)
    then show ?thesis using X2 fixed by (simp add: X3_def)
  qed
  have a: "0 < a" using X3 X3c by (simp add: a_def)
  define s3 where "s3 = spacing (100 * X2)"
  have s3: "0 < s3" by (simp add: s3_def)
  have "\<bar>100 * X2 - X3\<bar> \<le> s3 / 2"
    unfolding X3_def s3_def by (rule round_magnitude_error)
  then have near3: "100 * X2 - c \<le> s3 / 2" using X3c by linarith
  have "\<exists>n. c = of_int n * s3"
  proof -
    have "X3 = of_int (round_half_even (100 * X2 / s3)) * 2 powi (max (ilog2 (100 * X2) - 52) (- 1074))"
      by (simp add: X3_def s3_def round_magnitude_spacing spacing_def)
    then show ?thesis unfolding c_def s3_def spacing_def by (rule ceiling_multiple)
  qed
  then obtain n where n: "c = of_int n * s3" ..
  have exps: "max (ilog2 (100 * X2) - 52) (- 1074) \<le> max (ilog2 X1 - 52) (- 1074)"
  proof (cases "- 1074 \<le> ilog2 (100 * X2) - 52")
    case True
    have "(2::rat) powi (ilog2 (100 * X2)) \<le> X3"
      unfolding X3_def using X2 True by (intro round_magnitude_lower) simp_all
    also have "X3 \<le> c" by fact
    also have "c < X1" by fact
    also have "X1 < 2 powi (ilog2 X1 + 1)" using X1(1) by (rule ilog2_bounds)
    finally have "ilog2 (100 * X2) < ilog2 X1 + 1" by (rule two_powi_less_imp)
    then show ?thesis by simp
  next
    case False
    then show ?thesis by simp
  qed
  from spacing_multiple [OF exps] obtain j :: nat where "spacing X1 = 2 ^ j * s3"
    unfolding s3_def ..
  then have "X1 = of_int (m1 * 2 ^ j) * s3" using X1(2) by simp
  with s3 have gap: "c + s3 \<le> X1" using n cX1 by (rule multiples_gap)
  have close: "X2 - a \<le> b - X2" using gap near3 by (simp add: a_def b_def)
  define sb where "sb = spacing b"
  define m2 where "m2 = round_half_even (b / sb)"
  have sb: "0 < sb" by (simp add: sb_def)
  have X2m: "X2 = of_int m2 * sb" by (simp add: X2_def m2_def sb_def round_magnitude_spacing)
  have "\<bar>b - X2\<bar> \<le> sb / 2" unfolding X2_def sb_def by (rule round_magnitude_error)
  then have near2: "X2 - a \<le> sb / 2" using close by linarith
  have same: "spacing a = sb"
  proof (cases "- 1074 \<le> ilog2 b - 52")
    case False
    have "ilog2 a \<le> ilog2 b" using a ab by (intro ilog2_mono) simp_all
    then show ?thesis using False by (simp add: sb_def spacing_def)
  next
    case True
    define L where "L = ilog2 b"
    have sbL: "sb = 2 powi (L - 52)" using True by (simp add: sb_def spacing_def L_def)
    have lower: "2 powi L \<le> X2"
      unfolding X2_def L_def using b True by (rule round_magnitude_lower)
    have "X2 \<noteq> 2 powi L"
    proof
      assume eq: "X2 = 2 powi L"
      have "- 1022 \<le> L" using True by (simp add: L_def)
      then have "round_magnitude (100 * 2 powi L) = 100 * 2 powi L"
        by (rule round_magnitude_hundred_power)
      then have "X3 = 100 * X2" by (simp add: X3_def eq)
      then show False using X3c c100 by simp
    qed
    then have "2 powi L < X2" using lower by simp
    moreover have "(2::rat) powi L = of_int (2 ^ 52) * sb"
      using power_int_add [of "2::rat" 52 "L - 52"] by (simp add: sbL)
    ultimately have "2 powi L + sb \<le> X2" using sb X2m by (intro multiples_gap) simp_all
    then have "2 powi L \<le> a" using near2 sb by linarith
    moreover have "a < 2 powi (L + 1)"
      using ab ilog2_bounds(2) [OF b] by (simp add: L_def)
    ultimately have "ilog2 a = L" by (rule ilog2_unique)
    then show ?thesis by (simp add: sb_def spacing_def L_def)
  qed
  have "round_magnitude a = of_int (round_half_even (a / sb)) * sb"
    by (simp add: round_magnitude_spacing same)
  then have "(of_int (round_half_even (a / sb)) :: rat) * sb < of_int m2 * sb"
    using lt X2m by simp
  then have "(of_int (round_half_even (a / sb)) :: rat) < of_int m2"
    using sb by (simp add: mult_less_cancel_right)
  then have d: "round_half_even (a / sb) < m2" by simp
  have "of_int m2 * sb - a \<le> b - of_int m2 * sb" using close by (simp only: X2m)
  with sb m2_def [symmetric] d show False by (rule tie_contradiction)
qed

section \<open>Properties of the arithmetic\<close>

lemma js_le_refl: "a \<noteq> NaN \<Longrightarrow> js_le a a"
  by (cases a) simp_all

lemma js_le_not_NaN: "js_le a b \<Longrightarrow> a \<noteq> NaN \<and> b \<noteq> NaN"
  by (cases a; cases b) simp_all

lemma js_lt_imp_le: "js_lt a b \<Longrightarrow> js_le a b"
  by (cases a; cases b) simp_all

lemma js_le_NegInf: "b \<noteq> NaN \<Longrightarrow> js_le NegInf b"
  by (cases b) simp_all

lemma js_le_PosInf: "a \<noteq> NaN \<Longrightarrow> js_le a PosInf"
  by (cases a) simp_all

lemma js_mul_mono:
  assumes "js_le a b" "0 < c"
  shows "js_le (js_mul a (Fin c)) (js_mul b (Fin c))"
proof (cases a)
  case (Fin x)
  show ?thesis
  proof (cases b)
    case (Fin y)
    with \<open>a = Fin x\<close> assms show ?thesis by (simp add: round_double_mono)
  qed (use Fin assms in \<open>simp_all add: js_le_PosInf\<close>)
qed (use assms in \<open>cases b; simp add: js_le_NegInf\<close>)+

lemma js_div_mono:
  assumes "js_le a b" "0 < c"
  shows "js_le (js_div a (Fin c)) (js_div b (Fin c))"
proof (cases a)
  case (Fin x)
  show ?thesis
  proof (cases b)
    case (Fin y)
    with \<open>a = Fin x\<close> assms show ?thesis by (simp add: round_double_mono divide_right_mono)
  qed (use Fin assms in \<open>simp_all add: js_le_PosInf\<close>)
qed (use assms in \<open>cases b; simp add: js_le_NegInf\<close>)+

lemma js_ceil_ge: "a \<noteq> NaN \<Longrightarrow> js_le a (js_ceil a)"
  by (cases a) simp_all

lemma js_ceil_nonneg: "js_le (Fin 0) a \<Longrightarrow> js_le (Fin 0) (js_ceil a)"
  by (cases a) simp_all

lemma js_mul_nonneg:
  assumes "js_le (Fin 0) a" "0 < c"
  shows "js_le (Fin 0) (js_mul a (Fin c))"
  using js_mul_mono [OF assms] by simp

lemma js_div_nonneg:
  assumes "js_le (Fin 0) a" "0 < c"
  shows "js_le (Fin 0) (js_div a (Fin c))"
  using js_div_mono [OF assms] assms(2) by simp

lemma fee_nonneg:
  assumes "js_lt (Fin 0) a" "0 < p"
  shows "js_le (Fin 0) (js_mul (js_div (js_mul a (Fin p)) (Fin 100)) (Fin 100))"
  by (intro js_mul_nonneg js_div_nonneg js_lt_imp_le assms) simp_all

text \<open>
  \<^verbatim>\<open>Math.ceil(y * 100) / 100\<close> is not below \<open>y\<close> when \<open>y\<close> is \<^verbatim>\<open>x / 100\<close> for a binary64 number
  \<open>x\<close>: a result below \<open>y\<close> would need two ties, one rounded to an even and one to an odd
  multiple of the same spacing.
\<close>

lemma round_double_pos:
  assumes "0 < x"
  shows "round_double x =
    (if 2 ^ 1024 \<le> round_magnitude x then PosInf else Fin (round_magnitude x))"
  using assms by (simp add: round_double_def Let_def)

lemma fee_ge_unrounded_finite:
  assumes X1: "0 < X1" "X1 = of_int m1 * spacing X1" "X1 < 2 ^ 1024"
  shows "js_le (js_div (Fin X1) (Fin 100))
    (js_div (js_ceil (js_mul (js_div (Fin X1) (Fin 100)) (Fin 100))) (Fin 100))"
proof -
  define Y where "Y = round_magnitude (X1 / 100)"
  have b: "0 < X1 / 100" using X1(1) by simp
  have "round_magnitude X1 = X1" using X1(2) by (rule round_magnitude_fixed)
  moreover have "round_magnitude (X1 / 100) \<le> round_magnitude X1"
    using b X1(1) by (intro round_magnitude_mono) simp_all
  ultimately have "Y < 2 ^ 1024" using X1(3) by (simp add: Y_def)
  then have x2: "js_div (Fin X1) (Fin 100) = Fin Y"
    using b by (simp add: round_double_pos Y_def)
  have Y0: "0 \<le> Y" unfolding Y_def using b by (rule round_magnitude_nonneg)
  show ?thesis
  proof (cases "Y = 0")
    case True
    then show ?thesis unfolding x2 by simp
  next
    case False
    then have Y: "0 < Y" using Y0 by simp
    define Z where "Z = round_magnitude (100 * Y)"
    have fixed: "round_magnitude Y = Y"
      unfolding Y_def using b Y [unfolded Y_def] by (rule round_magnitude_idem)
    have "round_magnitude Y \<le> round_magnitude (100 * Y)"
      using Y by (intro round_magnitude_mono) simp_all
    then have Z: "0 < Z" using Y fixed by (simp add: Z_def)
    have x3: "js_mul (Fin Y) (Fin 100) = (if 2 ^ 1024 \<le> Z then PosInf else Fin Z)"
      using Y by (simp add: round_double_pos Z_def mult.commute)
    show ?thesis
    proof (cases "(2::rat) ^ 1024 \<le> Z")
      case True
      then show ?thesis unfolding x2 x3 by simp
    next
      case False
      have c: "(0::rat) < of_int \<lceil>Z\<rceil> / 100" using Z by simp
      have "Y \<le> round_magnitude (of_int \<lceil>Z\<rceil> / 100)"
        unfolding Y_def Z_def using X1(1,2) Y [unfolded Y_def] by (rule fee_core)
      then have "js_le (Fin Y) (round_double (of_int \<lceil>Z\<rceil> / 100))"
        by (simp add: round_double_pos [OF c])
      then show ?thesis unfolding x2 x3 using False by simp
    qed
  qed
qed

lemma fee_ge_unrounded:
  assumes a: "js_lt (Fin 0) a" and p: "0 < p"
  shows "js_le (js_div (js_mul a (Fin p)) (Fin 100))
    (js_div (js_ceil (js_mul (js_div (js_mul a (Fin p)) (Fin 100)) (Fin 100))) (Fin 100))"
proof (cases a)
  case (Fin v)
  then have v: "0 < v * p" using a p by simp
  define X1 where "X1 = round_magnitude (v * p)"
  have x1: "js_mul a (Fin p) = (if 2 ^ 1024 \<le> X1 then PosInf else Fin X1)"
    by (simp add: Fin round_double_pos [OF v] X1_def)
  have X0: "0 \<le> X1" unfolding X1_def using v by (rule round_magnitude_nonneg)
  show ?thesis
  proof (cases "(2::rat) ^ 1024 \<le> X1")
    case True
    then show ?thesis unfolding x1 by simp
  next
    case False
    show ?thesis
    proof (cases "X1 = 0")
      case True
      then show ?thesis unfolding x1 by simp
    next
      case nz: False
      then have X1: "0 < X1" using X0 by simp
      obtain m1 where "X1 = of_int m1 * spacing X1"
        using round_magnitude_representable [OF v] X1 unfolding X1_def by blast
      with X1 have "js_le (js_div (Fin X1) (Fin 100))
          (js_div (js_ceil (js_mul (js_div (Fin X1) (Fin 100)) (Fin 100))) (Fin 100))"
        using False by (intro fee_ge_unrounded_finite) simp_all
      then show ?thesis unfolding x1 using False by simp
    qed
  qed
qed (use assms in simp_all)

lemma js_mul_not_NaN: "a \<noteq> NaN \<Longrightarrow> c \<noteq> 0 \<Longrightarrow> js_mul a (Fin c) \<noteq> NaN"
  by (cases a) simp_all

lemma js_sub_finite_not_NaN: "js_isFinite a \<Longrightarrow> js_isFinite b \<Longrightarrow> js_sub a b \<noteq> NaN"
  by (cases a; cases b) (simp_all add: js_isFinite_def)

lemma final_rounds_up:
  assumes "js_isFinite s" "js_isFinite f" "js_isFinite r" "js_gt r (Fin 0)"
  shows "js_ge (calculateFinalAmount s r f)
           (js_div (js_mul (js_mul (js_sub s f) r) (Fin 100)) (Fin 100))"
proof -
  obtain z where r: "r = Fin z" "0 < z"
    using assms(3,4) by (cases r) (simp_all add: js_isFinite_def js_gt_def)
  have "js_sub s f \<noteq> NaN" using assms(1,2) by (rule js_sub_finite_not_NaN)
  then have "js_mul (js_sub s f) r \<noteq> NaN" using r by (simp add: js_mul_not_NaN)
  then have "js_mul (js_mul (js_sub s f) r) (Fin 100) \<noteq> NaN" by (simp add: js_mul_not_NaN)
  then have "js_le (js_div (js_mul (js_mul (js_sub s f) r) (Fin 100)) (Fin 100))
     (js_div (js_ceil (js_mul (js_mul (js_sub s f) r) (Fin 100))) (Fin 100))"
    by (intro js_div_mono js_ceil_ge) simp_all
  then show ?thesis by (simp add: calculateFinalAmount_def js_ge_def)
qed

subsection \<open>Amounts of whole cents\<close>

text \<open>
  Away from the subnormal numbers and from overflow a rounding changes its argument by at
  most the factor \<open>1 \<plusminus> 2\<^sup>-\<^sup>5\<^sup>3\<close>.
\<close>

lemma round_double_relative:
  assumes lo: "1 / 2 ^ 20 \<le> x" and hi: "x \<le> 2 ^ 100"
  shows "\<exists>y. round_double x = Fin y
    \<and> x * (1 - 1 / 2 ^ 53) \<le> y \<and> y \<le> x * (1 + 1 / 2 ^ 53)"
proof -
  have x: "0 < x" using lo by (rule less_le_trans [rotated]) simp
  have "(2::rat) powi (- 20) = 1 / 2 ^ 20" by (simp add: power_int_def power_divide)
  also have "\<dots> \<le> x" by fact
  also have "x < 2 powi (ilog2 x + 1)" using x by (rule ilog2_bounds)
  finally have "- 20 < ilog2 x + 1" by (rule two_powi_less_imp)
  then have sp: "spacing x = 2 powi (ilog2 x - 52)" by (simp add: spacing_def max_def)
  have "(2::rat) powi (ilog2 x - 52) = 2 powi (ilog2 x) / 2 ^ 52"
    by (simp add: power_int_diff)
  also have "\<dots> \<le> x / 2 ^ 52" using ilog2_bounds(1) [OF x] by (simp add: divide_right_mono)
  finally have s: "spacing x \<le> x / 2 ^ 52" unfolding sp .
  have "\<bar>x - round_magnitude x\<bar> \<le> spacing x / 2" by (rule round_magnitude_error)
  also have "\<dots> \<le> x / 2 ^ 53" using s by simp
  finally have e: "\<bar>x - round_magnitude x\<bar> \<le> x / 2 ^ 53" .
  have e1: "x - round_magnitude x \<le> x / 2 ^ 53" and e2: "round_magnitude x - x \<le> x / 2 ^ 53"
    using e by linarith+
  have l: "x * (1 - 1 / 2 ^ 53) \<le> round_magnitude x" using e1 by (simp add: algebra_simps)
  have u: "round_magnitude x \<le> x * (1 + 1 / 2 ^ 53)" using e2 by (simp add: algebra_simps)
  have "x * (1 + 1 / 2 ^ 53) \<le> 2 ^ 100 * (1 + 1 / 2 ^ 53)"
    using hi by (rule mult_right_mono) simp
  also have "\<dots> < (2::rat) ^ 1024" by simp
  finally have "round_magnitude x < 2 ^ 1024" using u by simp
  then have "round_double x = Fin (round_magnitude x)" using x by (simp add: round_double_pos)
  then show ?thesis using l u by blast
qed

lemma round_double_between:
  assumes "L \<le> w" "w \<le> U" "1 / 2 ^ 20 \<le> L" "U \<le> 2 ^ 100"
  shows "\<exists>t. round_double w = Fin t
    \<and> L * (1 - 1 / 2 ^ 53) \<le> t \<and> t \<le> U * (1 + 1 / 2 ^ 53)"
proof -
  have "1 / 2 ^ 20 \<le> w" "w \<le> 2 ^ 100" using assms by simp_all
  then obtain t where t: "round_double w = Fin t" "w * (1 - 1 / 2 ^ 53) \<le> t"
    "t \<le> w * (1 + 1 / 2 ^ 53)"
    using round_double_relative by blast
  have "L * (1 - 1 / 2 ^ 53) \<le> w * (1 - 1 / 2 ^ 53)"
    using assms(1) by (rule mult_right_mono) simp
  moreover have "w * (1 + 1 / 2 ^ 53) \<le> U * (1 + 1 / 2 ^ 53)"
    using assms(2) by (rule mult_right_mono) simp
  ultimately show ?thesis using t by (meson order_trans)
qed

text \<open>A number of hundredths that is not a whole number lies at least a hundredth above the
  whole number below it.\<close>

lemma cents_gap:
  fixes N :: int
  shows "of_int \<lceil>(of_int N :: rat) / 100\<rceil> - 1 + 1 / 100 \<le> (of_int N :: rat) / 100"
proof -
  define j where "j = \<lceil>(of_int N :: rat) / 100\<rceil>"
  have "of_int j - 1 < (of_int N :: rat) / 100" unfolding j_def by linarith
  then have "(of_int (100 * (j - 1)) :: rat) < of_int N" by simp
  then have "100 * (j - 1) < N" by (simp only: of_int_less_iff)
  then have "100 * (j - 1) + 1 \<le> N" by simp
  then have "(of_int (100 * (j - 1) + 1) :: rat) \<le> of_int N" by (simp only: of_int_le_iff)
  then show ?thesis unfolding j_def [symmetric] by simp
qed

text \<open>
  For an amount of \<open>k\<close> cents, \<open>k\<close> up to \<open>10\<^sup>1\<^sup>2\<close>, the four roundings before \<^verbatim>\<open>Math.ceil\<close> move the
  fee in cents by less than a hundredth of a cent downwards and by less than a cent upwards:
  the ceiling is the exact number of cents or one more.
\<close>

lemma fee_cents_ceiling:
  fixes k :: nat and P :: int
  assumes k: "0 < k" "k \<le> 10 ^ 12" and P: "P = 10 \<or> P = 20"
  shows "\<exists>c. js_ceil (js_mul (js_div (js_mul (round_double (of_nat k / 100)) (Fin (of_int P)))
        (Fin 100)) (Fin 100)) = Fin (of_int c)
    \<and> (c = \<lceil>(of_int (int k * P) :: rat) / 100\<rceil>
       \<or> c = \<lceil>(of_int (int k * P) :: rat) / 100\<rceil> + 1)"
proof -
  define q r :: rat where "q = 1 - 1 / 2 ^ 53" and "r = 1 + 1 / 2 ^ 53"
  define p :: rat where "p = of_int P"
  define x0 :: rat where "x0 = of_nat k / 100"
  define v :: rat where "v = of_int (int k * P) / 100"
  define j where "j = \<lceil>v\<rceil>"
  have q: "0 \<le> q" "0 \<le> r" by (simp_all add: q_def r_def)
  have p: "10 \<le> p" "p \<le> 20" using P by (auto simp add: p_def)
  have k1: "(1::rat) \<le> of_nat k" using k(1) by simp
  have "(of_nat k :: rat) \<le> of_nat (10 ^ 12)" using k(2) by (simp only: of_nat_le_iff)
  then have k2: "(of_nat k :: rat) \<le> 10 ^ 12" by simp
  have x0: "1 / 100 \<le> x0" "x0 \<le> 10 ^ 10" using k1 k2 by (simp_all add: x0_def)
  have x00: "0 \<le> x0" using x0(1) by linarith
  have p0: "0 \<le> p" using p(1) by linarith
  have vx: "v = x0 * p" by (simp add: v_def x0_def p_def)
  have "1 / 100 * 10 \<le> x0 * p" using x0(1) p(1) by (rule mult_mono) (use x00 p0 in simp_all)
  then have v1: "1 / 10 \<le> v" by (simp add: vx)
  have "x0 * p \<le> 10 ^ 10 * 20" using x0(2) p(2) by (rule mult_mono) (use x00 p0 in simp_all)
  then have v2: "v \<le> 2 * 10 ^ 11" by (simp add: vx)
  have v0: "0 \<le> v" using v1 by simp
  have lo: "1 / 10 * c \<le> v * c" if "0 \<le> c" for c using v1 that by (rule mult_right_mono)
  have hi: "v * c \<le> 2 * 10 ^ 11 * c" if "0 \<le> c" for c
    using v2 that by (rule mult_right_mono)
  obtain a where a: "round_double x0 = Fin a" "x0 * q \<le> a" "a \<le> x0 * r"
    using round_double_between [of x0 x0 x0] x0 unfolding q_def r_def by auto
  have "x0 * q * p \<le> a * p" using a(2) by (rule mult_right_mono) (rule p0)
  then have l1: "v * q \<le> a * p" by (simp add: vx mult_ac)
  have "a * p \<le> x0 * r * p" using a(3) by (rule mult_right_mono) (rule p0)
  then have u1: "a * p \<le> v * r" by (simp add: vx mult_ac)
  have "(1::rat) / 2 ^ 20 \<le> 1 / 10 * q" by (simp add: q_def)
  also have "\<dots> \<le> v * q" by (rule lo) (simp add: q_def)
  finally have n1: "1 / 2 ^ 20 \<le> v * q" .
  have "v * r \<le> 2 * 10 ^ 11 * r" by (rule hi) (simp add: r_def)
  also have "\<dots> \<le> 2 ^ 100" by (simp add: r_def)
  finally have m1: "v * r \<le> 2 ^ 100" .
  obtain x1 where x1: "round_double (a * p) = Fin x1" "v * q * q \<le> x1" "x1 \<le> v * r * r"
    using round_double_between [OF l1 u1 n1 m1] unfolding q_def r_def by blast
  have l2: "v * (q * q / 100) \<le> x1 / 100" using x1(2) by simp
  have u2: "x1 / 100 \<le> v * (r * r / 100)" using x1(3) by simp
  have "(1::rat) / 2 ^ 20 \<le> 1 / 10 * (q * q / 100)" by (simp add: q_def)
  also have "\<dots> \<le> v * (q * q / 100)" by (rule lo) (simp add: q_def)
  finally have n2: "1 / 2 ^ 20 \<le> v * (q * q / 100)" .
  have "v * (r * r / 100) \<le> 2 * 10 ^ 11 * (r * r / 100)" by (rule hi) (simp add: r_def)
  also have "\<dots> \<le> 2 ^ 100" by (simp add: r_def)
  finally have m2: "v * (r * r / 100) \<le> 2 ^ 100" .
  obtain y where y: "round_double (x1 / 100) = Fin y" "v * (q * q / 100) * q \<le> y"
    "y \<le> v * (r * r / 100) * r"
    using round_double_between [OF l2 u2 n2 m2] unfolding q_def r_def by blast
  have l3: "v * (q * q * q) \<le> y * 100" using y(2) by simp
  have u3: "y * 100 \<le> v * (r * r * r)" using y(3) by simp
  have "(1::rat) / 2 ^ 20 \<le> 1 / 10 * (q * q * q)" by (simp add: q_def)
  also have "\<dots> \<le> v * (q * q * q)" by (rule lo) (simp add: q_def)
  finally have n3: "1 / 2 ^ 20 \<le> v * (q * q * q)" .
  have "v * (r * r * r) \<le> 2 * 10 ^ 11 * (r * r * r)" by (rule hi) (simp add: r_def)
  also have "\<dots> \<le> 2 ^ 100" by (simp add: r_def)
  finally have m3: "v * (r * r * r) \<le> 2 ^ 100" .
  obtain z where z: "round_double (y * 100) = Fin z" "v * (q * q * q) * q \<le> z"
    "z \<le> v * (r * r * r) * r"
    using round_double_between [OF l3 u3 n3 m3] unfolding q_def r_def by blast
  have "1 - 4 / 2 ^ 53 \<le> q * q * q * q" by (simp add: q_def)
  then have "v * (1 - 4 / 2 ^ 53) \<le> v * (q * q * q * q)" using v0 by (rule mult_left_mono)
  then have zl: "v * (1 - 4 / 2 ^ 53) \<le> z" using z(2) by (simp add: mult_ac)
  have "r * r * r * r \<le> 1 + 5 / 2 ^ 53" by (simp add: r_def)
  then have "v * (r * r * r * r) \<le> v * (1 + 5 / 2 ^ 53)" using v0 by (rule mult_left_mono)
  then have zu: "z \<le> v * (1 + 5 / 2 ^ 53)" using z(3) by (simp add: mult_ac)
  have gap: "of_int j - 1 + 1 / 100 \<le> v" unfolding j_def v_def by (rule cents_gap)
  have top: "v \<le> of_int j" unfolding j_def by simp
  have "of_int (j - 1) < z" using zl gap v2 by simp
  then have "j - 1 < \<lceil>z\<rceil>" by (simp only: less_ceiling_iff)
  then have c1: "j \<le> \<lceil>z\<rceil>" by simp
  have "z \<le> of_int (j + 1)" using zu top v2 by simp
  then have c2: "\<lceil>z\<rceil> \<le> j + 1" by (simp only: ceiling_le_iff)
  have "js_ceil (js_mul (js_div (js_mul (round_double (of_nat k / 100)) (Fin (of_int P))) (Fin 100))
       (Fin 100)) = Fin (of_int \<lceil>z\<rceil>)"
    using a(1) x1(1) y(1) z(1) by (simp add: x0_def p_def)
  moreover have "\<lceil>z\<rceil> = j \<or> \<lceil>z\<rceil> = j + 1" using c1 c2 by linarith
  ultimately show ?thesis unfolding j_def v_def by blast
qed

text \<open>
  So \<open>calculateFee\<close> on an amount of whole cents returns the fee of the specification or one
  cent more, and never less.
\<close>

lemma calculateFee_cents:
  assumes "0 < k" "k \<le> 10 ^ 12"
  shows "calculateFee (round_double (of_nat k / 100)) d =
      round_double (exact_fee (of_nat k / 100) d)
    \<or> calculateFee (round_double (of_nat k / 100)) d =
      round_double (exact_fee (of_nat k / 100) d + 1 / 100)"
proof -
  define P :: int where "P = (if d = UK then 10 else 20)"
  define j where "j = \<lceil>(of_int (int k * P) :: rat) / 100\<rceil>"
  have P: "P = 10 \<or> P = 20" by (simp add: P_def)
  obtain c where c:
    "js_ceil (js_mul (js_div (js_mul (round_double (of_nat k / 100)) (Fin (of_int P))) (Fin 100))
       (Fin 100)) = Fin (of_int c)"
    and cj: "c = j \<or> c = j + 1"
    using fee_cents_ceiling [OF assms P] unfolding j_def by blast
  have "calculateFee (round_double (of_nat k / 100)) d =
      js_div (js_ceil (js_mul (js_div (js_mul (round_double (of_nat k / 100)) (Fin (of_int P)))
        (Fin 100)) (Fin 100))) (Fin 100)"
    by (simp add: calculateFee_def P_def)
  then have fee: "calculateFee (round_double (of_nat k / 100)) d = round_double (of_int c / 100)"
    unfolding c by simp
  have "(of_nat k :: rat) / 100 * fee_rate d * 100 = of_int (int k * P) / 100"
    by (cases d) (simp_all add: fee_rate_def P_def)
  then have ex: "exact_fee (of_nat k / 100) d = of_int j / 100"
    unfolding exact_fee_def j_def by (simp only:)
  from cj show ?thesis
  proof
    assume "c = j"
    then show ?thesis unfolding fee ex by simp
  next
    assume "c = j + 1"
    then have "(of_int c :: rat) / 100 = of_int j / 100 + 1 / 100" by (simp add: add_divide_distrib)
    then show ?thesis unfolding fee ex by (simp only: simp_thms)
  qed
qed

section \<open>Evaluations\<close>

text \<open>In an evaluation the defining equations of the arithmetic are switched off, so that
  each operation is rewritten with the value computed for it.\<close>

lemmas js_arith = js_mul.simps js_div.simps js_sub.simps js_add.simps js_ceil.simps

text \<open>Each rounding below is checked with \<open>round_double_eval\<close>: the spacing exponent and the
  multiple are given, and the bounds are compared as rationals.\<close>

subsection \<open>\<^verbatim>\<open>calculateFee(11, 'UK')\<close>\<close>

lemma fee_11_mul: "js_mul (Fin 11) (Fin 10) = Fin 110"
proof -
  have "round_double (11 * 10) = Fin 110"
    by (rule round_double_eval [where e = "- 46" and m = 7740561859543040]) simp_all
  then show ?thesis by simp
qed

lemma fee_11_div: "js_div (Fin 110) (Fin 100) = Fin (2476979795053773 / 2251799813685248)"
proof -
  have "round_double (110 / 100) = Fin (2476979795053773 / 2251799813685248)"
    by (rule round_double_eval [where e = "- 52" and m = 4953959590107546]) simp_all
  then show ?thesis by simp
qed

lemma fee_11_mul100:
  "js_mul (Fin (2476979795053773 / 2251799813685248)) (Fin 100) =
     Fin (7740561859543041 / 70368744177664)"
proof -
  have "round_double ((2476979795053773 / 2251799813685248) * 100) =
      Fin (7740561859543041 / 70368744177664)"
    by (rule round_double_eval [where e = "- 46" and m = 7740561859543041]) simp_all
  then show ?thesis by simp
qed

lemma fee_11_ceil: "js_ceil (Fin (7740561859543041 / 70368744177664)) = Fin 111"
proof -
  have "\<lceil>(7740561859543041 / 70368744177664)::rat\<rceil> = 111" by (rule ceiling_unique) simp_all
  then show ?thesis by simp
qed

lemma fee_11_cents: "js_div (Fin 111) (Fin 100) = Fin (4998995586381251 / 4503599627370496)"
proof -
  have "round_double (111 / 100) = Fin (4998995586381251 / 4503599627370496)"
    by (rule round_double_eval [where e = "- 52" and m = 4998995586381251]) simp_all
  then show ?thesis by simp
qed

lemma lit_1_11: "round_double (111 / 100) = Fin (4998995586381251 / 4503599627370496)"
  by (rule round_double_eval [where e = "- 52" and m = 4998995586381251]) simp_all

text \<open>Ten per cent of 11 is 1.10, yet the fee is 1.11: \<^verbatim>\<open>110 / 100 * 100\<close> is
  \<^verbatim>\<open>110.00000000000001\<close> in binary64, and \<^verbatim>\<open>Math.ceil\<close> takes it to 111.\<close>

lemma calculateFee_eleven: "calculateFee (Fin 11) UK = round_double (111 / 100)"
  by (simp add: calculateFee_def fee_11_mul fee_11_div fee_11_mul100 fee_11_ceil fee_11_cents
      lit_1_11 del: js_arith)

lemma lit_1_10: "round_double (11 / 10) = Fin (2476979795053773 / 2251799813685248)"
  by (rule round_double_eval [where e = "- 52" and m = 4953959590107546]) simp_all

text \<open>\<^verbatim>\<open>calculateFee(5.5, 'South Africa')\<close> goes the same way from \<^verbatim>\<open>5.5 * 20 = 110\<close> on.\<close>

lemma fee_5_5_mul: "js_mul (Fin (11 / 2)) (Fin 20) = Fin 110"
proof -
  have "round_double ((11 / 2) * 20) = Fin 110"
    by (rule round_double_eval [where e = "- 46" and m = 7740561859543040]) simp_all
  then show ?thesis by simp
qed

lemma calculateFee_five_and_a_half:
  "calculateFee (Fin (11 / 2)) South_Africa = round_double (111 / 100)"
  by (simp add: calculateFee_def fee_5_5_mul fee_11_div fee_11_mul100 fee_11_ceil fee_11_cents
      lit_1_11 del: js_arith)

subsection \<open>The examples of \<open>calculateFinalAmount\<close>\<close>

lemma lit_0_74: "round_double (37 / 50) = Fin (3332663724254167 / 4503599627370496)"
  by (rule round_double_eval [where e = "- 53" and m = 6665327448508334]) simp_all

lemma final_100_sub: "js_sub (Fin 100) (Fin 10) = Fin 90"
proof -
  have "round_double (100 - 10) = Fin 90"
    by (rule round_double_eval [where e = "- 46" and m = 6333186975989760]) simp_all
  then show ?thesis by simp
qed

lemma final_100_mul:
  "js_mul (Fin 90) (Fin (3332663724254167 / 4503599627370496)) =
     Fin (2343279181116211 / 35184372088832)"
proof -
  have "round_double (90 * (3332663724254167 / 4503599627370496)) =
      Fin (2343279181116211 / 35184372088832)"
    by (rule round_double_eval [where e = "- 46" and m = 4686558362232422]) simp_all
  then show ?thesis by simp
qed

lemma final_100_mul100:
  "js_mul (Fin (2343279181116211 / 35184372088832)) (Fin 100) =
     Fin (7322747440988159 / 1099511627776)"
proof -
  have "round_double ((2343279181116211 / 35184372088832) * 100) =
      Fin (7322747440988159 / 1099511627776)"
    by (rule round_double_eval [where e = "- 40" and m = 7322747440988159]) simp_all
  then show ?thesis by simp
qed

lemma final_100_ceil: "js_ceil (Fin (7322747440988159 / 1099511627776)) = Fin 6660"
proof -
  have "\<lceil>(7322747440988159 / 1099511627776)::rat\<rceil> = 6660" by (rule ceiling_unique) simp_all
  then show ?thesis by simp
qed

lemma final_100_cents: "js_div (Fin 6660) (Fin 100) = Fin (2343279181116211 / 35184372088832)"
proof -
  have "round_double (6660 / 100) = Fin (2343279181116211 / 35184372088832)"
    by (rule round_double_eval [where e = "- 46" and m = 4686558362232422]) simp_all
  then show ?thesis by simp
qed

lemma lit_66_60: "round_double (333 / 5) = Fin (2343279181116211 / 35184372088832)"
  by (rule round_double_eval [where e = "- 46" and m = 4686558362232422]) simp_all

lemma fee_200_mul: "js_mul (Fin 200) (Fin 20) = Fin 4000"
proof -
  have "round_double (200 * 20) = Fin 4000"
    by (rule round_double_eval [where e = "- 41" and m = 8796093022208000]) simp_all
  then show ?thesis by simp
qed

lemma fee_200_div: "js_div (Fin 4000) (Fin 100) = Fin 40"
proof -
  have "round_double (4000 / 100) = Fin 40"
    by (rule round_double_eval [where e = "- 47" and m = 5629499534213120]) simp_all
  then show ?thesis by simp
qed

lemma fee_200_mul100: "js_mul (Fin 40) (Fin 100) = Fin 4000"
proof -
  have "round_double (40 * 100) = Fin 4000"
    by (rule round_double_eval [where e = "- 41" and m = 8796093022208000]) simp_all
  then show ?thesis by simp
qed

lemma fee_200_ceil: "js_ceil (Fin 4000) = Fin 4000"
proof -
  have "\<lceil>4000::rat\<rceil> = 4000" by (rule ceiling_unique) simp_all
  then show ?thesis by simp
qed

lemma lit_17_75: "round_double (71 / 4) = Fin (71 / 4)"
  by (rule round_double_eval [where e = "- 48" and m = 4996180836614144]) simp_all

lemma final_200_sub: "js_sub (Fin 200) (Fin 40) = Fin 160"
proof -
  have "round_double (200 - 40) = Fin 160"
    by (rule round_double_eval [where e = "- 45" and m = 5629499534213120]) simp_all
  then show ?thesis by simp
qed

lemma final_200_mul: "js_mul (Fin 160) (Fin (71 / 4)) = Fin 2840"
proof -
  have "round_double (160 * (71 / 4)) = Fin 2840"
    by (rule round_double_eval [where e = "- 41" and m = 6245226045767680]) simp_all
  then show ?thesis by simp
qed

lemma final_200_mul100: "js_mul (Fin 2840) (Fin 100) = Fin 284000"
proof -
  have "round_double (2840 * 100) = Fin 284000"
    by (rule round_double_eval [where e = "- 34" and m = 4879082848256000]) simp_all
  then show ?thesis by simp
qed

lemma final_200_ceil: "js_ceil (Fin 284000) = Fin 284000"
proof -
  have "\<lceil>284000::rat\<rceil> = 284000" by (rule ceiling_unique) simp_all
  then show ?thesis by simp
qed

lemma final_200_cents: "js_div (Fin 284000) (Fin 100) = Fin 2840"
proof -
  have "round_double (284000 / 100) = Fin 2840"
    by (rule round_double_eval [where e = "- 41" and m = 6245226045767680]) simp_all
  then show ?thesis by simp
qed

lemma final_100:
  "calculateFinalAmount (Fin 100) (round_double (74 / 100)) (Fin 10) = round_double (6660 / 100)"
  by (simp add: calculateFinalAmount_def lit_0_74 final_100_sub final_100_mul final_100_mul100
      final_100_ceil final_100_cents lit_66_60
      del: js_arith)

lemma fee_200: "calculateFee (Fin 200) South_Africa = Fin 40"
  by (simp add: calculateFee_def fee_200_mul fee_200_div fee_200_mul100 fee_200_ceil del: js_arith)

lemma final_200:
  "calculateFinalAmount (Fin 200) (round_double (1775 / 100)) (Fin 40) = Fin 2840"
  by (simp add: calculateFinalAmount_def lit_17_75 final_200_sub final_200_mul final_200_mul100
      final_200_ceil final_200_cents
      del: js_arith)

subsection \<open>\<^verbatim>\<open>calculateFee(110, 'UK')\<close> and \<^verbatim>\<open>calculateFinalAmount(110, 0.74, 11)\<close>\<close>

lemma fee_110_mul: "js_mul (Fin 110) (Fin 10) = Fin 1100"
proof -
  have "round_double (110 * 10) = Fin 1100"
    by (rule round_double_eval [where e = "- 42" and m = 4837851162214400]) simp_all
  then show ?thesis by simp
qed

lemma fee_110_div: "js_div (Fin 1100) (Fin 100) = Fin 11"
proof -
  have "round_double (1100 / 100) = Fin 11"
    by (rule round_double_eval [where e = "- 49" and m = 6192449487634432]) simp_all
  then show ?thesis by simp
qed

lemma fee_110_mul100: "js_mul (Fin 11) (Fin 100) = Fin 1100"
proof -
  have "round_double (11 * 100) = Fin 1100"
    by (rule round_double_eval [where e = "- 42" and m = 4837851162214400]) simp_all
  then show ?thesis by simp
qed

lemma fee_110_ceil: "js_ceil (Fin 1100) = Fin 1100"
  by simp

lemma calculateFee_110: "calculateFee (Fin 110) UK = Fin 11"
  by (simp add: calculateFee_def fee_110_mul fee_110_div fee_110_mul100 fee_110_ceil
      del: js_arith)

lemma final_110_sub: "js_sub (Fin 110) (Fin 11) = Fin 99"
proof -
  have "round_double (110 - 11) = Fin 99"
    by (rule round_double_eval [where e = "- 46" and m = 6966505673588736]) simp_all
  then show ?thesis by simp
qed

lemma final_110_mul:
  "js_mul (Fin 99) (Fin (3332663724254167 / 4503599627370496)) =
     Fin (5155214198455665 / 70368744177664)"
proof -
  have "round_double (99 * (3332663724254167 / 4503599627370496)) =
      Fin (5155214198455665 / 70368744177664)"
    by (rule round_double_eval [where e = "- 46" and m = 5155214198455665]) simp_all
  then show ?thesis by simp
qed

lemma final_110_mul100:
  "js_mul (Fin (5155214198455665 / 70368744177664)) (Fin 100) =
     Fin (8055022185086977 / 1099511627776)"
proof -
  have "round_double ((5155214198455665 / 70368744177664) * 100) =
      Fin (8055022185086977 / 1099511627776)"
    by (rule round_double_eval [where e = "- 40" and m = 8055022185086977]) simp_all
  then show ?thesis by simp
qed

lemma final_110_ceil: "js_ceil (Fin (8055022185086977 / 1099511627776)) = Fin 7327"
proof -
  have "\<lceil>(8055022185086977 / 1099511627776)::rat\<rceil> = 7327" by (rule ceiling_unique) simp_all
  then show ?thesis by simp
qed

lemma final_110_cents: "js_div (Fin 7327) (Fin 100) = Fin (5155917885897441 / 70368744177664)"
proof -
  have "round_double (7327 / 100) = Fin (5155917885897441 / 70368744177664)"
    by (rule round_double_eval [where e = "- 46" and m = 5155917885897441]) simp_all
  then show ?thesis by simp
qed

lemma lit_73_27: "round_double (7327 / 100) = Fin (5155917885897441 / 70368744177664)"
  by (rule round_double_eval [where e = "- 46" and m = 5155917885897441]) simp_all

lemma lit_73_26: "round_double (3663 / 50) = Fin (5155214198455665 / 70368744177664)"
  by (rule round_double_eval [where e = "- 46" and m = 5155214198455665]) simp_all

text \<open>The product \<^verbatim>\<open>99 * 0.74\<close> is the binary64 number 73.26, which lies above the decimal
  73.26; a hundred times it is \<^verbatim>\<open>7326.000000000001\<close>, and \<^verbatim>\<open>Math.ceil\<close> takes that to 7327.\<close>

lemma calculateFinalAmount_110:
  "calculateFinalAmount (Fin 110) (round_double (74 / 100)) (Fin 11) = round_double (7327 / 100)"
  by (simp add: calculateFinalAmount_def lit_0_74 final_110_sub final_110_mul final_110_mul100
      final_110_ceil final_110_cents lit_73_27
      del: js_arith)

section \<open>Properties of \<open>parseAmount\<close>\<close>

lemma round_double_positive_cent:
  assumes "1 / 100 \<le> x"
  shows "js_lt (Fin 0) (round_double x)"
proof -
  have "(2::rat) powi (- 1074) \<le> 2 powi (- 7)" by (rule two_powi_le) simp
  also have "\<dots> = 1 / 128" by (simp add: power_int_def power_divide)
  also have "\<dots> \<le> 1 / 100" by simp
  also have "\<dots> \<le> x" by fact
  finally show ?thesis by (rule round_double_positive)
qed

lemma round_5: "round_double 5 = Fin 5"
  by (rule round_double_eval [where e = "- 50" and m = 5629499534213120]) simp_all

lemma lit_12_345: "round_double (2469 / 200) = Fin (6949617174986097 / 562949953421312)"
  by (rule round_double_eval [where e = "- 49" and m = 6949617174986097]) simp_all

lemma split_dot_not_Nil [simp]: "split_dot s \<noteq> []"
  by (induction s) (auto split: list.splits)

lemma hd_split_dot: "hd (split_dot s) = takeWhile (\<lambda>c. c \<noteq> CHR ''.'') s"
  by (induction s) (auto split: list.splits)

lemma split_dot_second:
  "(case split_dot s of _ # f # _ \<Rightarrow> f | _ \<Rightarrow> []) = fraction_digits s"
proof (induction s)
  case Nil
  show ?case by (simp add: fraction_digits_def)
next
  case (Cons c s)
  show ?case
  proof (cases "c = CHR ''.''")
    case True
    then show ?thesis
      using hd_split_dot [of s] split_dot_not_Nil [of s]
      by (cases "split_dot s") (simp_all add: fraction_digits_def)
  next
    case False
    then show ?thesis
      using Cons split_dot_not_Nil [of s]
      by (cases "split_dot s") (simp_all add: fraction_digits_def)
  qed
qed

lemma fraction_digits_clean: "list_all is_digit (fraction_digits (clean input))"
proof -
  have sub: "c \<in> set s \<and> c \<noteq> CHR ''.''" if "c \<in> set (fraction_digits s)" for c s
  proof -
    from that have "c \<in> set (drop 1 (dropWhile (\<lambda>c. c \<noteq> CHR ''.'') s))" and "c \<noteq> CHR ''.''"
      unfolding fraction_digits_def by (blast dest: set_takeWhileD)+
    then show ?thesis by (blast dest: in_set_dropD set_dropWhileD)
  qed
  have "is_digit c" if "c \<in> set (fraction_digits (clean input))" for c
  proof -
    from sub [OF that] have "c \<in> set (clean input)" and "c \<noteq> CHR ''.''" by blast+
    then show ?thesis unfolding clean_def by simp
  qed
  then show ?thesis unfolding list_all_iff by blast
qed

lemma decimalPlaces_fraction: "decimalPlaces s = length (fraction_digits s)"
  by (simp add: decimalPlaces_def split_dot_second)

lemma js_lt_zero_cases: "js_lt (Fin 0) a \<Longrightarrow> a \<noteq> NaN \<and> \<not> js_le a (Fin 0)"
  by (cases a) simp_all

lemma parseAmount_cases:
  "parseAmount input =
     (if parseFloat (clean input) = NaN then InvalidFormat
      else if js_le (parseFloat (clean input)) (Fin 0) then NonPositive
      else if 2 < length (fraction_digits (clean input)) then TooManyDecimals
      else \<lparr>isValid = True, error = None, amount = parseFloat (clean input)\<rparr>)"
  by (simp add: parseAmount_def Let_def js_isNaN_def decimalPlaces_fraction InvalidFormat_def
      NonPositive_def TooManyDecimals_def)

lemma clean_chars: "c \<in> set (clean input) \<Longrightarrow> is_digit c \<or> c = CHR ''.''"
  by (simp add: clean_def)

lemma parseAmount_nonpositive:
  "js_le (parseFloat (clean input)) (Fin 0) \<Longrightarrow> parseAmount input = NonPositive"
  using js_le_not_NaN by (auto simp add: parseAmount_cases)

lemma parseAmount_zero: "parseAmount ''0'' = NonPositive"
  by (simp add: parseAmount_cases clean_def is_digit_def parseFloat_def digits_value_def)

lemma parseAmount_abc: "parseAmount ''abc'' = InvalidFormat"
  by (simp add: parseAmount_cases clean_def is_digit_def parseFloat_def)

lemma parseFloat_12_345: "parseFloat (clean ''12.345'') = round_double (12345 / 1000)"
  by (simp add: clean_def is_digit_def parseFloat_def digits_value_def)

lemma parseAmount_12_345: "parseAmount ''12.345'' = TooManyDecimals"
proof -
  have "js_lt (Fin 0) (round_double (12345 / 1000))"
    by (rule round_double_positive_cent) simp
  then have "parseFloat (clean ''12.345'') \<noteq> NaN \<and> \<not> js_le (parseFloat (clean ''12.345'')) (Fin 0)"
    unfolding parseFloat_12_345 by (rule js_lt_zero_cases)
  moreover have "fraction_digits (clean ''12.345'') = ''345''"
    by (simp add: clean_def is_digit_def fraction_digits_def)
  ultimately show ?thesis by (simp add: parseAmount_cases)
qed

lemma is_digit_not_dot: "is_digit c \<Longrightarrow> c \<noteq> CHR ''.''"
  by (auto simp add: is_digit_def)

lemma parseFloat_decimal:
  assumes "well_formed_decimal s ip fp"
  shows "parseFloat s = round_double (decimal_value ip fp)"
proof -
  have ip: "ip \<noteq> []" "\<forall>c\<in>set ip. is_digit c" and fp: "\<forall>c\<in>set fp. is_digit c"
    using assms by (simp_all add: well_formed_decimal_def list_all_iff)
  from assms consider "s = ip" "fp = []" | "s = ip @ CHR ''.'' # fp"
    by (auto simp add: well_formed_decimal_def)
  then show ?thesis
  proof cases
    case 1
    have tw: "takeWhile is_digit ip = ip" and dw: "dropWhile is_digit ip = []"
      using ip(2) by simp_all
    show ?thesis using ip(1) by (simp add: 1 parseFloat_def decimal_value_def tw dw)
  next
    case 2
    have nd: "\<not> is_digit CHR ''.''" by (simp add: is_digit_def)
    have tw: "takeWhile is_digit (ip @ CHR ''.'' # fp) = ip"
      using ip(2) nd by simp
    have dw: "dropWhile is_digit (ip @ CHR ''.'' # fp) = CHR ''.'' # fp"
      using ip(2) nd by simp
    have tf: "takeWhile is_digit fp = fp" using fp by simp
    show ?thesis using ip(1)
      by (simp add: 2 parseFloat_def decimal_value_def Let_def tw dw tf)
  qed
qed

lemma fraction_digits_decimal:
  assumes "well_formed_decimal s ip fp"
  shows "fraction_digits s = fp"
proof -
  have ip: "\<forall>c\<in>set ip. c \<noteq> CHR ''.''" and fp: "\<forall>c\<in>set fp. c \<noteq> CHR ''.''"
    using assms is_digit_not_dot by (auto simp add: well_formed_decimal_def list_all_iff)
  from assms consider "s = ip" "fp = []" | "s = ip @ CHR ''.'' # fp"
    by (auto simp add: well_formed_decimal_def)
  then show ?thesis
  proof cases
    case 1
    have dw: "dropWhile (\<lambda>c. c \<noteq> CHR ''.'') ip = []" using ip by simp
    show ?thesis by (simp add: 1 fraction_digits_def dw)
  next
    case 2
    have dw: "dropWhile (\<lambda>c. c \<noteq> CHR ''.'') (ip @ CHR ''.'' # fp) = CHR ''.'' # fp"
      using ip by simp
    have tw: "takeWhile (\<lambda>c. c \<noteq> CHR ''.'') fp = fp" using fp by simp
    show ?thesis by (simp add: 2 fraction_digits_def dw tw)
  qed
qed

lemma decimal_value_cent:
  assumes "length fp \<le> 2" "0 < decimal_value ip fp"
  shows "1 / 100 \<le> decimal_value ip fp"
proof -
  have "0 < digits_value (ip @ fp)"
    using assms(2) by (simp add: decimal_value_def zero_less_divide_iff)
  then have n: "(1::rat) \<le> of_nat (digits_value (ip @ fp))" by simp
  have "(10::rat) ^ length fp \<le> 10 ^ 2" using assms(1) by (intro power_increasing) simp_all
  then have "(1::rat) / 10 ^ 2 \<le> 1 / 10 ^ length fp" by (intro divide_left_mono) simp_all
  also have "\<dots> \<le> of_nat (digits_value (ip @ fp)) / 10 ^ length fp"
    using n by (intro divide_right_mono) simp_all
  finally show ?thesis by (simp add: decimal_value_def)
qed

lemma parseAmount_decimal:
  assumes "well_formed_decimal (clean input) ip fp" "0 < decimal_value ip fp"
  shows "parseAmount input =
    \<lparr>isValid = True, error = None, amount = round_double (decimal_value ip fp)\<rparr>"
proof -
  have len: "length fp \<le> 2" using assms(1) by (simp add: well_formed_decimal_def)
  have "js_lt (Fin 0) (round_double (decimal_value ip fp))"
    using decimal_value_cent [OF len assms(2)] by (rule round_double_positive_cent)
  then have "round_double (decimal_value ip fp) \<noteq> NaN
      \<and> \<not> js_le (round_double (decimal_value ip fp)) (Fin 0)"
    by (rule js_lt_zero_cases)
  then show ?thesis
    using len by (simp add: parseAmount_cases parseFloat_decimal [OF assms(1)]
        fraction_digits_decimal [OF assms(1)])
qed

lemma parseAmount_NaN: "parseFloat (clean input) = NaN \<Longrightarrow> parseAmount input = InvalidFormat"
  by (simp add: parseAmount_cases)

lemma parseAmount_123_45:
  "parseAmount ''123.45'' = \<lparr>isValid = True, error = None, amount = round_double (12345 / 100)\<rparr>"
proof -
  have wf: "well_formed_decimal (clean ''123.45'') ''123'' ''45''"
    by (simp add: well_formed_decimal_def clean_def is_digit_def)
  have dv: "decimal_value ''123'' ''45'' = 12345 / 100"
    by (simp add: decimal_value_def digits_value_def)
  have pos: "0 < decimal_value ''123'' ''45''" unfolding dv by simp
  show ?thesis using parseAmount_decimal [OF wf pos] unfolding dv .
qed

lemma digits_value_snoc:
  "digits_value (ds @ [c]) = 10 * digits_value ds + (of_char c - 48)"
  by (simp add: digits_value_def)

lemma digits_value_nines: "digits_value (replicate n (CHR ''9'')) + 1 = 10 ^ n"
proof (induction n)
  case 0
  show ?case by (simp add: digits_value_def)
next
  case (Suc n)
  have "replicate (Suc n) (CHR ''9'') = replicate n (CHR ''9'') @ [CHR ''9'']"
    by (simp add: replicate_append_same)
  then have "digits_value (replicate (Suc n) (CHR ''9'')) =
      digits_value (replicate n (CHR ''9'') @ [CHR ''9''])"
    by (simp only:)
  also have "\<dots> = 10 * digits_value (replicate n (CHR ''9'')) + 9"
    by (simp add: digits_value_snoc)
  finally show ?case using Suc by simp
qed

lemma parseFloat_nines:
  assumes "0 < n"
  shows "parseFloat (clean (replicate n (CHR ''9''))) = round_double (10 ^ n - 1)"
proof -
  have d: "is_digit (CHR ''9'')" by (simp add: is_digit_def)
  have c: "clean (replicate n (CHR ''9'')) = replicate n (CHR ''9'')"
    using d by (simp add: clean_def)
  have "of_nat (digits_value (replicate n (CHR ''9''))) = (10::rat) ^ n - 1"
    using digits_value_nines [of n, THEN arg_cong, of "of_nat :: nat \<Rightarrow> rat"] by simp
  then show ?thesis using assms d by (simp add: c parseFloat_def)
qed

section \<open>Properties of \<open>validateTransactionAmount\<close>\<close>

lemma round_1100: "round_double 1100 = Fin 1100"
  by (rule round_double_eval [where e = "- 42" and m = "1100 * 2 ^ 42"]) simp_all

lemma validate_first_failure:
  "validateTransactionAmount nf a user spentToday spentThisMonth =
     (case first_failure a user spentToday spentThisMonth of
        None \<Rightarrow> \<lparr>isValid = True, error = None\<rparr>
      | Some e \<Rightarrow> \<lparr>isValid = False, error = Some (failure_message nf e)\<rparr>)"
  by (cases user) (simp_all add: validateTransactionAmount_def first_failure_def Let_def)

lemma validate_half:
  "validateTransactionAmount nf (Fin (1 / 2)) (Some \<lparr>tier = basic\<rparr>) spentToday spentThisMonth =
     \<lparr>isValid = False, error = Some (failure_message nf (BelowMinimum (Fin 1)))\<rparr>"
  by (simp add: validateTransactionAmount_def)

lemma validate_600:
  "validateTransactionAmount nf (Fin 600) (Some \<lparr>tier = basic\<rparr>) spentToday spentThisMonth =
     \<lparr>isValid = False, error = Some (failure_message nf (AboveMaximum (Fin 500)))\<rparr>"
  by (simp add: validateTransactionAmount_def js_gt_def)

lemma validate_500:
  "validateTransactionAmount nf (Fin 500) (Some \<lparr>tier = basic\<rparr>) (Fin 600) spentThisMonth =
     \<lparr>isValid = False, error = Some (failure_message nf (DailyLimitExceeded (Fin 1000)))\<rparr>"
  by (simp add: validateTransactionAmount_def js_gt_def round_1100)

section \<open>Properties of \<open>getExchangeRates\<close>\<close>

lemma latest_append: "latest d (xs @ ys) = latest (latest d xs) ys"
  by (simp add: latest_def)

lemma USD_set_rate: "USD (set_rate r k v) = (if k = ''USD'' then v else USD r)"
  and GBP_set_rate: "GBP (set_rate r k v) = (if k = ''GBP'' then v else GBP r)"
  and ZAR_set_rate: "ZAR (set_rate r k v) = (if k = ''ZAR'' then v else ZAR r)"
  and USDT_set_rate: "USDT (set_rate r k v) = (if k = ''USDT'' then v else USDT r)"
  by (simp_all add: set_rate_def)

lemma foldl_set_rate:
  "USD (foldl (\<lambda>r (k, v). set_rate r k v) r kvs) =
     latest (USD r) (map snd (filter (\<lambda>kv. fst kv = ''USD'') kvs))"
  "GBP (foldl (\<lambda>r (k, v). set_rate r k v) r kvs) =
     latest (GBP r) (map snd (filter (\<lambda>kv. fst kv = ''GBP'') kvs))"
  "ZAR (foldl (\<lambda>r (k, v). set_rate r k v) r kvs) =
     latest (ZAR r) (map snd (filter (\<lambda>kv. fst kv = ''ZAR'') kvs))"
  "USDT (foldl (\<lambda>r (k, v). set_rate r k v) r kvs) =
     latest (USDT r) (map snd (filter (\<lambda>kv. fst kv = ''USDT'') kvs))"
  by (induction kvs rule: rev_induct)
    (auto simp add: latest_def USD_set_rate GBP_set_rate ZAR_set_rate USDT_set_rate)

lemma apply_item_latest:
  assumes "apply_item r item = Some r'"
  shows "USD r' = latest (USD r) (item_values ''USD'' item)"
    and "GBP r' = latest (GBP r) (item_values ''GBP'' item)"
    and "ZAR r' = latest (ZAR r) (item_values ''ZAR'' item)"
    and "USDT r' = latest (USDT r) (item_values ''USDT'' item)"
  using assms by (cases item; auto simp add: foldl_set_rate latest_def)+

lemma apply_items_latest:
  assumes "apply_items r items = Some r'"
  shows "USD r' = latest (USD r) (supplied ''USD'' items)
    \<and> GBP r' = latest (GBP r) (supplied ''GBP'' items)
    \<and> ZAR r' = latest (ZAR r) (supplied ''ZAR'' items)
    \<and> USDT r' = latest (USDT r) (supplied ''USDT'' items)"
  using assms
proof (induction items arbitrary: r)
  case Nil
  then show ?case by (simp add: supplied_def latest_def)
next
  case (Cons item items)
  from Cons.prems obtain r1 where r1: "apply_item r item = Some r1" "apply_items r1 items = Some r'"
    by (auto split: option.splits)
  have s: "supplied k (item # items) = item_values k item @ supplied k items" for k
    by (simp add: supplied_def)
  show ?case
    using Cons.IH [OF r1(2)] apply_item_latest [OF r1(1)]
    by (simp add: s latest_append)
qed

lemma getExchangeRates_Inr:
  assumes "getExchangeRates response = Inr rates"
  shows "apply_items default_rates (payload_items response) = Some rates"
proof (cases response)
  case (Inl e)
  with assms show ?thesis by (simp add: getExchangeRates_def)
next
  case (Inr d)
  with assms show ?thesis
    by (cases d) (auto simp add: getExchangeRates_def split: option.splits)
qed

lemma default_rates_positive:
  "positive_rate (USD default_rates) \<and> positive_rate (GBP default_rates)
   \<and> positive_rate (ZAR default_rates) \<and> positive_rate (USDT default_rates)"
proof -
  have "js_lt (Fin 0) (round_double (74 / 100))" "js_lt (Fin 0) (round_double (1775 / 100))"
    by (rule round_double_positive_cent, simp)+
  then show ?thesis by (simp add: default_rates_def js_gt_def)
qed

lemma latest_positive:
  "positive_rate d \<Longrightarrow> \<forall>v\<in>set vs. positive_rate v \<Longrightarrow> positive_rate (latest d vs)"
  by (simp add: latest_def)

section \<open>The fee and the final amount\<close>

text \<open>
  C1. The claim gives the fee as \<open>ceil (a \<times> 0.10 \<times> 100) / 100\<close> for the UK and as
  \<open>ceil (a \<times> 0.20 \<times> 100) / 100\<close> for South Africa. Ten per cent of 11 and twenty per cent of
  5.5 are both 1.10, a whole number of cents that rounding up leaves as it is, and
  \<open>calculateFee\<close> returns 1.11 for both, one cent more: \<^verbatim>\<open>110 / 100\<close> is the binary64 number
  next above 1.1, a hundred times it is \<^verbatim>\<open>110.00000000000001\<close>, and \<^verbatim>\<open>Math.ceil\<close> takes that
  to 111.
\<close>

theorem calculateFee_one_cent_above:
  "calculateFee (Fin 11) UK = round_double (111 / 100)
   \<and> exact_fee 11 UK = 110 / 100
   \<and> js_gt (calculateFee (Fin 11) UK) (round_double (exact_fee 11 UK))
   \<and> calculateFee (Fin (11 / 2)) South_Africa = round_double (111 / 100)
   \<and> exact_fee (11 / 2) South_Africa = 110 / 100
   \<and> js_gt (calculateFee (Fin (11 / 2)) South_Africa)
        (round_double (exact_fee (11 / 2) South_Africa))"
proof -
  have uk: "exact_fee 11 UK = 110 / 100" by (simp add: exact_fee_def fee_rate_def)
  have sa: "exact_fee (11 / 2) South_Africa = 110 / 100"
    by (simp add: exact_fee_def fee_rate_def)
  have above: "js_gt (round_double (111 / 100)) (round_double (110 / 100))"
    using lit_1_11 lit_1_10 by (simp add: js_gt_def)
  show ?thesis
    unfolding uk sa calculateFee_eleven calculateFee_five_and_a_half using above by simp
qed

text \<open>
  C2. The claim gives the final amount as \<open>ceil ((s - f) \<times> r \<times> 100) / 100\<close>. A transfer of 110
  to the UK has the fee 11, and \<open>(110 - 11) \<times> 0.74\<close> is 73.26, a whole number of cents;
  \<open>calculateFinalAmount 110 0.74 11\<close> is 73.27, one cent more: \<^verbatim>\<open>99 * 0.74 * 100\<close> is
  \<^verbatim>\<open>7326.000000000001\<close> in binary64, and \<^verbatim>\<open>Math.ceil\<close> takes that to 7327. The worked values of
  the claim are what the code returns: \<open>calculateFinalAmount 100 0.74 10\<close> is 66.60, and 200
  sent to South Africa at the rate 17.75 has the fee 40 and the final amount 2840.
\<close>

theorem calculateFinalAmount_one_cent_above:
  "calculateFee (Fin 110) UK = Fin 11
   \<and> calculateFinalAmount (Fin 110) (round_double (74 / 100)) (Fin 11)
       = round_double (7327 / 100)
   \<and> exact_finalAmount 110 (74 / 100) 11 = 7326 / 100
   \<and> js_gt (calculateFinalAmount (Fin 110) (round_double (74 / 100)) (Fin 11))
        (round_double (exact_finalAmount 110 (74 / 100) 11))
   \<and> calculateFinalAmount (Fin 100) (round_double (74 / 100)) (Fin 10) = round_double (6660 / 100)
   \<and> calculateFee (Fin 200) South_Africa = Fin 40
   \<and> calculateFinalAmount (Fin 200) (round_double (1775 / 100)) (Fin 40) = Fin 2840"
proof -
  have exact: "exact_finalAmount 110 (74 / 100) 11 = 7326 / 100"
    by (simp add: exact_finalAmount_def)
  have above: "js_gt (round_double (7327 / 100)) (round_double (7326 / 100))"
    using lit_73_27 lit_73_26 by (simp add: js_gt_def)
  show ?thesis
    unfolding exact calculateFinalAmount_110 final_100 fee_200 final_200 calculateFee_110
    using above by simp
qed

section \<open>The limit validation\<close>

text \<open>
  C3. For every amount, user, \<open>dailySpent\<close> and \<open>monthlySpent\<close>, \<open>validateTransactionAmount\<close>
  performs its checks in this order and returns the first failure only: no user, amount
  below the tier's minimum, amount above the tier's maximum, \<open>dailySpent + amount\<close> above the
  daily limit, \<open>monthlySpent + amount\<close> above the monthly limit; otherwise the amount is
  valid. For the basic tier, 0.5 fails with \<open>BelowMinimum\<close> whatever has been spent, 600 fails
  with \<open>AboveMaximum\<close>, and 500 after 600 spent today fails with \<open>DailyLimitExceeded\<close>.
\<close>

theorem validateTransactionAmount_first_failure:
  "validateTransactionAmount nf a user spentToday spentThisMonth =
     (case first_failure a user spentToday spentThisMonth of
        None \<Rightarrow> \<lparr>isValid = True, error = None\<rparr>
      | Some e \<Rightarrow> \<lparr>isValid = False, error = Some (failure_message nf e)\<rparr>)
   \<and> validateTransactionAmount nf (Fin (1 / 2)) (Some \<lparr>tier = basic\<rparr>) spentToday spentThisMonth =
       \<lparr>isValid = False, error = Some (failure_message nf (BelowMinimum (Fin 1)))\<rparr>
   \<and> validateTransactionAmount nf (Fin 600) (Some \<lparr>tier = basic\<rparr>) spentToday spentThisMonth =
       \<lparr>isValid = False, error = Some (failure_message nf (AboveMaximum (Fin 500)))\<rparr>
   \<and> validateTransactionAmount nf (Fin 500) (Some \<lparr>tier = basic\<rparr>) (Fin 600) spentThisMonth =
       \<lparr>isValid = False, error = Some (failure_message nf (DailyLimitExceeded (Fin 1000)))\<rparr>"
  using validate_first_failure validate_half validate_600 validate_500 by blast

text \<open>
  C7. For every tier the per-transaction minimum is at most the maximum and all four
  limits are non-negative; the basic tier has minimum 1, maximum 500, daily limit 1000 and
  monthly limit 10000.
\<close>

theorem TRANSACTION_LIMITS_invariant:
  "js_le (min' (perTransaction (TRANSACTION_LIMITS t))) (max' (perTransaction (TRANSACTION_LIMITS t)))
   \<and> js_ge (min' (perTransaction (TRANSACTION_LIMITS t))) (Fin 0)
   \<and> js_ge (max' (perTransaction (TRANSACTION_LIMITS t))) (Fin 0)
   \<and> js_ge (daily (TRANSACTION_LIMITS t)) (Fin 0)
   \<and> js_ge (monthly (TRANSACTION_LIMITS t)) (Fin 0)
   \<and> TRANSACTION_LIMITS basic =
       \<lparr>daily = Fin 1000, monthly = Fin 10000, perTransaction = \<lparr>min' = Fin 1, max' = Fin 500\<rparr>\<rparr>"
  by (cases t) (simp_all add: js_ge_def)

section \<open>The amount parser\<close>

text \<open>
  C4. \<open>parseAmount\<close> is to fail with \<open>NonPositive\<close> on \<^verbatim>\<open>"-5"\<close>. The cleaning step removes the
  minus sign with every other character that is neither a digit nor a dot, so the
  string parsed is \<^verbatim>\<open>"5"\<close> and the input is accepted with the amount 5.
\<close>

theorem parseAmount_minus_five:
  "clean ''-5'' = ''5'' \<and> parseAmount ''-5'' = \<lparr>isValid = True, error = None, amount = Fin 5\<rparr>"
  by (simp add: parseAmount_cases clean_def is_digit_def parseFloat_def digits_value_def round_5
      fraction_digits_def)

text \<open>
  C5. When the cleaned string parses to a finite number greater than 0, \<open>parseAmount\<close>
  fails with \<open>TooManyDecimals\<close> exactly when the fractional part of the cleaned string, the
  digits after its first dot, has more than 2 digits; \<^verbatim>\<open>"12.345"\<close> fails so.
\<close>

theorem parseAmount_TooManyDecimals:
  assumes "parseFloat (clean input) = Fin x" "0 < x"
  shows "(parseAmount input = TooManyDecimals \<longleftrightarrow> 2 < length (fraction_digits (clean input)))
    \<and> list_all is_digit (fraction_digits (clean input))
    \<and> parseAmount ''12.345'' = TooManyDecimals"
  using assms parseAmount_12_345 fraction_digits_clean
  by (simp add: parseAmount_cases TooManyDecimals_def)

text \<open>C5, witness: the hypotheses hold at \<^verbatim>\<open>"12.345"\<close>.\<close>

theorem parseAmount_TooManyDecimals_witness:
  "parseFloat (clean ''12.345'') = Fin (6949617174986097 / 562949953421312)
   \<and> (0::rat) < 6949617174986097 / 562949953421312
   \<and> (parseAmount ''12.345'' = TooManyDecimals
        \<longleftrightarrow> 2 < length (fraction_digits (clean ''12.345'')))"
proof -
  have h: "parseFloat (clean ''12.345'') = Fin (6949617174986097 / 562949953421312)"
    "(0::rat) < 6949617174986097 / 562949953421312"
    using parseFloat_12_345 lit_12_345 by simp_all
  show ?thesis using h parseAmount_TooManyDecimals [OF h] by blast
qed

text \<open>
  C6, as stated. An input that does not parse to a finite number fails with
  \<open>InvalidFormat\<close>. A string of 310 nines parses to \<^verbatim>\<open>Infinity\<close>, which is not \<^verbatim>\<open>NaN\<close>, and
  is accepted with the amount \<^verbatim>\<open>Infinity\<close>.
\<close>

theorem parseAmount_overflow_counterexample:
  "\<not> js_isFinite (parseFloat (clean (replicate 310 (CHR ''9''))))
   \<and> parseAmount (replicate 310 (CHR ''9'')) = \<lparr>isValid = True, error = None, amount = PosInf\<rparr>"
proof -
  have "round_double (10 ^ 310 - 1) = PosInf" by (rule round_double_overflow) simp
  then have p: "parseFloat (clean (replicate 310 (CHR ''9''))) = PosInf"
    by (simp add: parseFloat_nines)
  have "is_digit (CHR ''9'')" by (simp add: is_digit_def)
  then have "clean (replicate 310 (CHR ''9'')) = replicate 310 (CHR ''9'')"
    by (simp add: clean_def)
  then have "fraction_digits (clean (replicate 310 (CHR ''9''))) = []"
    by (simp add: fraction_digits_def)
  then show ?thesis using p by (simp add: parseAmount_cases js_isFinite_def)
qed

text \<open>
  C6, amended. When the cleaned input is a well-formed decimal with at most 2 fractional
  digits and a value above 0, \<open>parseAmount\<close> accepts it and returns the binary64 number
  that decimal denotes, with no further rounding; \<^verbatim>\<open>"123.45"\<close> gives 123.45. When the cleaned
  input parses to \<^verbatim>\<open>NaN\<close>, as \<^verbatim>\<open>"abc"\<close> does, \<open>parseAmount\<close> fails with \<open>InvalidFormat\<close>.
\<close>

theorem parseAmount_roundtrip:
  "(well_formed_decimal (clean input) ip fp \<and> 0 < decimal_value ip fp \<longrightarrow>
      parseAmount input =
        \<lparr>isValid = True, error = None, amount = round_double (decimal_value ip fp)\<rparr>)
   \<and> (parseFloat (clean input') = NaN \<longrightarrow> parseAmount input' = InvalidFormat)
   \<and> parseAmount ''123.45'' =
        \<lparr>isValid = True, error = None, amount = round_double (12345 / 100)\<rparr>
   \<and> parseAmount ''abc'' = InvalidFormat"
  using parseAmount_decimal parseAmount_NaN parseAmount_123_45 parseAmount_abc by blast

text \<open>C6, witness: the hypotheses hold at \<^verbatim>\<open>"$1,234.50"\<close> and at \<^verbatim>\<open>"abc"\<close>.\<close>

theorem parseAmount_roundtrip_witness:
  "well_formed_decimal (clean ''$1,234.50'') ''1234'' ''50''
   \<and> 0 < decimal_value ''1234'' ''50''
   \<and> parseFloat (clean ''abc'') = NaN
   \<and> parseAmount ''$1,234.50'' =
        \<lparr>isValid = True, error = None, amount = round_double (decimal_value ''1234'' ''50'')\<rparr>
   \<and> parseAmount ''abc'' = InvalidFormat"
proof -
  have h: "well_formed_decimal (clean ''$1,234.50'') ''1234'' ''50''"
    "0 < decimal_value ''1234'' ''50''" "parseFloat (clean ''abc'') = NaN"
    by (simp_all add: well_formed_decimal_def clean_def is_digit_def decimal_value_def
        digits_value_def parseFloat_def)
  show ?thesis
    using h parseAmount_roundtrip [of "''$1,234.50''" "''1234''" "''50''" "''abc''"] by blast
qed

text \<open>
  C9. \<open>parseAmount\<close> accepts \<^verbatim>\<open>"1.23.45"\<close>, whose cleaned form has two dots, with the amount
  1.23: \<open>parseFloat\<close> stops at the second dot, and the decimal places counted are the two
  digits between the first dot and the second.
\<close>

theorem parseAmount_two_dots:
  "clean ''1.23.45'' = ''1.23.45''
   \<and> parseFloat ''1.23.45'' = round_double (123 / 100)
   \<and> decimalPlaces ''1.23.45'' = 2
   \<and> parseAmount ''1.23.45'' = \<lparr>isValid = True, error = None, amount = round_double (123 / 100)\<rparr>"
proof -
  have c: "clean ''1.23.45'' = ''1.23.45''" by (simp add: clean_def is_digit_def)
  have p: "parseFloat ''1.23.45'' = round_double (123 / 100)"
    by (simp add: is_digit_def parseFloat_def digits_value_def)
  have "js_lt (Fin 0) (round_double (123 / 100))"
    by (rule round_double_positive_cent) simp
  then have "parseFloat ''1.23.45'' \<noteq> NaN \<and> \<not> js_le (parseFloat ''1.23.45'') (Fin 0)"
    unfolding p by (rule js_lt_zero_cases)
  moreover have d: "fraction_digits ''1.23.45'' = ''23''"
    by (simp add: fraction_digits_def)
  ultimately show ?thesis using c p by (simp add: parseAmount_cases decimalPlaces_fraction)
qed

text \<open>
  C10. Whenever \<open>parseAmount\<close> returns \<open>isValid = False\<close>, the amount it returns is 0.
\<close>

theorem parseAmount_invalid_amount:
  "\<not> isValid (parseAmount input) \<Longrightarrow> amount (parseAmount input) = Fin 0"
  by (simp add: parseAmount_cases InvalidFormat_def NonPositive_def TooManyDecimals_def
      split: if_splits)

text \<open>C10, witness: the hypothesis holds at \<^verbatim>\<open>"abc"\<close>, at \<^verbatim>\<open>"0"\<close> and at \<^verbatim>\<open>"12.345"\<close>, one
  input for each kind of failure.\<close>

theorem parseAmount_invalid_amount_witness:
  "\<not> isValid (parseAmount ''abc'') \<and> amount (parseAmount ''abc'') = Fin 0
   \<and> \<not> isValid (parseAmount ''0'') \<and> amount (parseAmount ''0'') = Fin 0
   \<and> \<not> isValid (parseAmount ''12.345'') \<and> amount (parseAmount ''12.345'') = Fin 0"
proof -
  have h: "\<not> isValid (parseAmount ''abc'')" "\<not> isValid (parseAmount ''0'')"
    "\<not> isValid (parseAmount ''12.345'')"
    by (simp_all add: parseAmount_abc parseAmount_zero parseAmount_12_345 InvalidFormat_def
        NonPositive_def TooManyDecimals_def)
  show ?thesis
    using h parseAmount_invalid_amount [OF h(1)] parseAmount_invalid_amount [OF h(2)]
      parseAmount_invalid_amount [OF h(3)]
    by blast
qed

section \<open>The exchange rate table\<close>

text \<open>
  C8, as stated. Every table \<open>getExchangeRates\<close> produces maps USD to 1 and holds positive
  rates. A payload that carries \<^verbatim>\<open>{"USD": 2, "GBP": -1}\<close> produces a table with USD at 2 and
  GBP at -1: the values of the payload are stored as they come.
\<close>

theorem getExchangeRates_payload_counterexample:
  "getExchangeRates
     (Inr (JArray [JObject [(''USD'', JNumber (Fin 2)), (''GBP'', JNumber (Fin (- 1)))]])) =
     Inr \<lparr>USD = JNumber (Fin 2), GBP = JNumber (Fin (- 1)),
          ZAR = JNumber (round_double (1775 / 100)), USDT = JNumber (Fin 1)\<rparr>
   \<and> JNumber (Fin 2) \<noteq> JNumber (Fin 1)
   \<and> \<not> positive_rate (JNumber (Fin (- 1)))"
  by (simp add: getExchangeRates_def default_rates_def set_rate_def js_gt_def)

text \<open>
  C8, amended. Every table \<open>getExchangeRates\<close> produces holds, for each of USD, GBP, ZAR
  and USDT, the last value the payload supplies for that code, and the default (1, 0.74,
  17.75, 1) when the payload supplies none. So USD is 1 when the payload has no USD entry,
  and the four rates are positive when every value the payload supplies for the four
  codes is a positive number.
\<close>

theorem getExchangeRates_table:
  assumes "getExchangeRates response = Inr rates"
  shows "USD rates = latest (JNumber (Fin 1)) (supplied ''USD'' (payload_items response))
    \<and> GBP rates = latest (JNumber (round_double (74 / 100))) (supplied ''GBP'' (payload_items response))
    \<and> ZAR rates = latest (JNumber (round_double (1775 / 100))) (supplied ''ZAR'' (payload_items response))
    \<and> USDT rates = latest (JNumber (Fin 1)) (supplied ''USDT'' (payload_items response))
    \<and> (supplied ''USD'' (payload_items response) = [] \<longrightarrow> USD rates = JNumber (Fin 1))
    \<and> ((\<forall>k\<in>set [''USD'', ''GBP'', ''ZAR'', ''USDT''].
           \<forall>v\<in>set (supplied k (payload_items response)). positive_rate v) \<longrightarrow>
         positive_rate (USD rates) \<and> positive_rate (GBP rates)
         \<and> positive_rate (ZAR rates) \<and> positive_rate (USDT rates))"
proof -
  note l = apply_items_latest [OF getExchangeRates_Inr [OF assms]]
  have eqs: "USD rates = latest (JNumber (Fin 1)) (supplied ''USD'' (payload_items response))"
    "GBP rates = latest (JNumber (round_double (74 / 100))) (supplied ''GBP'' (payload_items response))"
    "ZAR rates = latest (JNumber (round_double (1775 / 100))) (supplied ''ZAR'' (payload_items response))"
    "USDT rates = latest (JNumber (Fin 1)) (supplied ''USDT'' (payload_items response))"
    using l by (simp_all add: default_rates_def)
  have "positive_rate (USD rates) \<and> positive_rate (GBP rates)
         \<and> positive_rate (ZAR rates) \<and> positive_rate (USDT rates)"
    if "\<forall>k\<in>set [''USD'', ''GBP'', ''ZAR'', ''USDT''].
           \<forall>v\<in>set (supplied k (payload_items response)). positive_rate v"
    using that l default_rates_positive by (simp add: latest_positive)
  moreover have "USD rates = JNumber (Fin 1)" if "supplied ''USD'' (payload_items response) = []"
    using that eqs(1) by (simp add: latest_def)
  ultimately show ?thesis using eqs by blast
qed

text \<open>C8, witness: the hypotheses hold for the payload \<^verbatim>\<open>[{"GBP": 0.75}]\<close>.\<close>

theorem getExchangeRates_table_witness:
  "getExchangeRates (Inr (JArray [JObject [(''GBP'', JNumber (Fin (3 / 4)))]])) =
     Inr \<lparr>USD = JNumber (Fin 1), GBP = JNumber (Fin (3 / 4)),
          ZAR = JNumber (round_double (1775 / 100)), USDT = JNumber (Fin 1)\<rparr>
   \<and> supplied ''USD'' (payload_items (Inr (JArray [JObject [(''GBP'', JNumber (Fin (3 / 4)))]]))) = []
   \<and> supplied ''GBP'' (payload_items (Inr (JArray [JObject [(''GBP'', JNumber (Fin (3 / 4)))]])))
       = [JNumber (Fin (3 / 4))]
   \<and> positive_rate (JNumber (Fin (3 / 4)))
   \<and> latest (JNumber (Fin 1))
        (supplied ''USD'' (payload_items (Inr (JArray [JObject [(''GBP'', JNumber (Fin (3 / 4)))]]))))
       = JNumber (Fin 1)"
proof -
  have h: "getExchangeRates (Inr (JArray [JObject [(''GBP'', JNumber (Fin (3 / 4)))]])) =
     Inr \<lparr>USD = JNumber (Fin 1), GBP = JNumber (Fin (3 / 4)),
          ZAR = JNumber (round_double (1775 / 100)), USDT = JNumber (Fin 1)\<rparr>"
    by (simp add: getExchangeRates_def default_rates_def set_rate_def)
  have s: "supplied ''USD'' (payload_items (Inr (JArray [JObject [(''GBP'', JNumber (Fin (3 / 4)))]]))) = []"
    "supplied ''GBP'' (payload_items (Inr (JArray [JObject [(''GBP'', JNumber (Fin (3 / 4)))]])))
       = [JNumber (Fin (3 / 4))]"
    "positive_rate (JNumber (Fin (3 / 4)))"
    by (simp_all add: supplied_def js_gt_def)
  show ?thesis using h s getExchangeRates_table [OF h] by simp
qed

end
